theory Spec2Isabelle
  imports Complex_Main "HOL-Library.Monad_Syntax"
begin

section \<open>Numbers\<close>

text \<open>
  The program computes with \<^verbatim>\<open>float\<close> and \<^verbatim>\<open>double\<close>. It is embedded twice.

  The first embedding is over the real numbers: arithmetic is exact, the conversions
  between the two types are the identity, and an operation whose result is not a real
  number (a division by zero, the square root of a negative number) yields \<open>None\<close>, which
  everything that consumes the result passes on. It carries the claims about the structure
  of the computation (which samples are summed, what a sum is divided by, which records are
  written) and the claim about the back-solve, which is stated for exact arithmetic.

  The second embedding, from the section on binary32 numbers on, is over the binary32
  format with its rounding, its infinities and NaN. It carries the claims that rounding,
  underflow or overflow decide.
\<close>

definition fdiv :: "real \<Rightarrow> real \<Rightarrow> real option" where
  "fdiv a b = (if b = 0 then None else Some (a / b))"

definition fsqrt :: "real \<Rightarrow> real option" where
  "fsqrt x = (if x < 0 then None else Some (sqrt x))"

text \<open>
  Modelled from the spec: \<^verbatim>\<open>clamp\<close> of \<^verbatim>\<open>utils.h\<close>, which is not part of the
  repository. The spec writes \<^verbatim>\<open>clamp(x, 0, 1)\<close> for the restriction of a number to
  an interval.
\<close>

definition clamp :: "real \<Rightarrow> real \<Rightarrow> real \<Rightarrow> real" where
  "clamp x a b = (if x < a then a else if b < x then b else x)"

section \<open>Colors and vectors\<close>

text \<open>
  Modelled from the spec: the \<^verbatim>\<open>Color\<close> class of the rendering library, a vector of three
  numbers with componentwise arithmetic and a squared length. The components
  \<^verbatim>\<open>c.r\<close>, \<^verbatim>\<open>c.g\<close>, \<^verbatim>\<open>c.b\<close> (also \<^verbatim>\<open>c[0]\<close>, \<^verbatim>\<open>c[1]\<close>, \<^verbatim>\<open>c[2]\<close>)
  are \<open>cr\<close>, \<open>cg\<close>, \<open>cb\<close> here.
\<close>

datatype Color = Color (cr: real) (cg: real) (cb: real)

definition color_scale :: "Color \<Rightarrow> real \<Rightarrow> Color" where
  "color_scale c f = Color (cr c * f) (cg c * f) (cb c * f)"

definition color_add :: "Color \<Rightarrow> Color \<Rightarrow> Color" where
  "color_add c d = Color (cr c + cr d) (cg c + cg d) (cb c + cb d)"

definition color_sub :: "Color \<Rightarrow> Color \<Rightarrow> Color" where
  "color_sub c d = Color (cr c - cr d) (cg c - cg d) (cb c - cb d)"

definition lengthSqr :: "Color \<Rightarrow> real" where
  "lengthSqr c = cr c * cr c + cg c * cg c + cb c * cb c"

datatype Vector3f = Vector3f real real real

text \<open>
  The functions \<^verbatim>\<open>getRefractDir\<close> and \<^verbatim>\<open>getFresnelCoeff\<close> of
  \<^verbatim>\<open>misc_ray.h\<close> and the colour conversions \<^verbatim>\<open>encodeToSRGB\<close> and
  \<^verbatim>\<open>toRGB32\<close> belong to the rendering library, not to the repository. They are
  parameters of the model. \<^verbatim>\<open>getRefractDir\<close> also sets the flag
  \<^verbatim>\<open>internalRefl\<close>, the second component of its result here.
\<close>

record VUtils =
  getRefractDir :: "Vector3f \<Rightarrow> Vector3f \<Rightarrow> real \<Rightarrow> Vector3f \<times> bool"
  getFresnelCoeff :: "Vector3f \<Rightarrow> Vector3f \<Rightarrow> Vector3f \<Rightarrow> real \<Rightarrow> real"
  encodeToSRGB :: "Color \<Rightarrow> Color"
  toRGB32 :: "Color \<Rightarrow> int"

section \<open>The metallic Fresnel of the material\<close>

definition getVRayMetallicFresnel ::
  "VUtils \<Rightarrow> Color \<Rightarrow> Color \<Rightarrow> real \<Rightarrow> real \<Rightarrow> Color option" where
  "getVRayMetallicFresnel V base reflection ior cs = do {
     sn \<leftarrow> fsqrt (1 - cs * cs);
     let viewDir = Vector3f sn 0 (- cs);
     let normal = Vector3f 0 0 1;
     let (refractDir, internalRefl) = getRefractDir V viewDir normal ior;
     let f = getFresnelCoeff V viewDir normal refractDir ior;
     Some (color_add (color_scale base (1 - f)) (color_scale reflection f))
   }"

text \<open>
  The Fresnel coefficient \<^verbatim>\<open>f\<close> that \<^verbatim>\<open>getVRayMetallicFresnel\<close> obtains from the
  rendering library for an index \<open>ior\<close> and a cosine \<open>cs\<close>.
\<close>

definition vrayFresnel :: "VUtils \<Rightarrow> real \<Rightarrow> real \<Rightarrow> real" where
  "vrayFresnel V ior cs =
     (let viewDir = Vector3f (sqrt (1 - cs * cs)) 0 (- cs);
          normal = Vector3f 0 0 1;
          (refractDir, internalRefl) = getRefractDir V viewDir normal ior
      in getFresnelCoeff V viewDir normal refractDir ior)"

section \<open>The artist-friendly metallic Fresnel\<close>

definition n_min :: "real \<Rightarrow> real option" where
  "n_min r = fdiv (1 - r) (1 + r)"

definition n_max :: "real \<Rightarrow> real option" where
  "n_max r = do {
     s \<leftarrow> fsqrt r;
     fdiv (1 + s) (1 - s)
   }"

definition get_n :: "real \<Rightarrow> real \<Rightarrow> real option" where
  "get_n r g = do {
     lo \<leftarrow> n_min r;
     hi \<leftarrow> n_max r;
     Some (lo * g + (1 - g) * hi)
   }"

definition get_k2 :: "real \<Rightarrow> real \<Rightarrow> real option" where
  "get_k2 r n =
     (let nr = (n + 1) * (n + 1) * r - (n - 1) * (n - 1)
      in fdiv nr (1 - r))"

definition get_r :: "real \<Rightarrow> real \<Rightarrow> real option" where
  "get_r n k = fdiv ((n - 1) * (n - 1) + k * k) ((n + 1) * (n + 1) + k * k)"

definition get_g :: "real \<Rightarrow> real \<Rightarrow> real option" where
  "get_g n k = do {
     r \<leftarrow> get_r n k;
     hi \<leftarrow> n_max r;
     lo \<leftarrow> n_min r;
     fdiv (hi - n) (hi - lo)
   }"

definition olefresnel :: "real \<Rightarrow> real \<Rightarrow> real \<Rightarrow> real option" where
  "olefresnel r g c = do {
     let r' = clamp r 0 0.99;
     n \<leftarrow> get_n r' g;
     k2 \<leftarrow> get_k2 r' n;
     let rs_num = n * n + k2 - 2 * n * c + c * c;
     let rs_den = n * n + k2 + 2 * n * c + c * c;
     rs \<leftarrow> fdiv rs_num rs_den;
     let rp_num = (n * n + k2) * c * c - 2 * n * c + 1;
     let rp_den = (n * n + k2) * c * c + 2 * n * c + 1;
     rp \<leftarrow> fdiv rp_num rp_den;
     Some (0.5 * (rs + rp))
   }"

definition getOleMetallicFresnel :: "Color \<Rightarrow> Color \<Rightarrow> real \<Rightarrow> Color option" where
  "getOleMetallicFresnel base reflection cos_theta = do {
     x \<leftarrow> olefresnel (cr base) (cr reflection) cos_theta;
     y \<leftarrow> olefresnel (cg base) (cg reflection) cos_theta;
     z \<leftarrow> olefresnel (cb base) (cb reflection) cos_theta;
     Some (Color x y z)
   }"

section \<open>The complex Fresnel formula\<close>

definition complexFresnel :: "real \<Rightarrow> real \<Rightarrow> real \<Rightarrow> real option" where
  "complexFresnel n k c =
     (let k2 = k * k;
          rs_num = n * n + k2 - 2 * n * c + c * c;
          rs_den = n * n + k2 + 2 * n * c + c * c
      in do {
        rs \<leftarrow> fdiv rs_num rs_den;
        let rp_num = (n * n + k2) * c * c - 2 * n * c + 1;
        let rp_den = (n * n + k2) * c * c + 2 * n * c + 1;
        rp \<leftarrow> fdiv rp_num rp_den;
        Some (clamp (0.5 * (rs + rp)) 0 1)
      })"

definition getComplexFresnel :: "Color \<Rightarrow> Color \<Rightarrow> real \<Rightarrow> Color option" where
  "getComplexFresnel n k cs = do {
     x \<leftarrow> complexFresnel (cr n) (cr k) cs;
     y \<leftarrow> complexFresnel (cg n) (cg k) cs;
     z \<leftarrow> complexFresnel (cb n) (cb k) cs;
     Some (Color x y z)
   }"

text \<open>
  The inputs on which the complex Fresnel formula is defined in exact arithmetic: a
  refractive index that is not negative, away from the point where the three arguments of
  one wavelength vanish together.
\<close>

definition nonneg :: "Color \<Rightarrow> bool" where
  "nonneg n \<longleftrightarrow> 0 \<le> cr n \<and> 0 \<le> cg n \<and> 0 \<le> cb n"

definition degenerate :: "Color \<Rightarrow> Color \<Rightarrow> real \<Rightarrow> bool" where
  "degenerate n k c \<longleftrightarrow>
     c = 0 \<and> (cr n = 0 \<and> cr k = 0 \<or> cg n = 0 \<and> cg k = 0 \<or> cb n = 0 \<and> cb k = 0)"

text \<open>A color whose components are fractions.\<close>

definition unit_color :: "Color \<Rightarrow> bool" where
  "unit_color c \<longleftrightarrow> 0 \<le> cr c \<and> cr c \<le> 1 \<and> 0 \<le> cg c \<and> cg c \<le> 1 \<and> 0 \<le> cb c \<and> cb c \<le> 1"

section \<open>The metal presets\<close>

text \<open>
  The fields \<^verbatim>\<open>name\<close>, \<^verbatim>\<open>n\<close> and \<^verbatim>\<open>k\<close> of the struct are \<open>pname\<close>,
  \<open>pn\<close> and \<open>pk\<close>.
\<close>

datatype MetalPreset = MetalPreset (pname: string) (pn: Color) (pk: Color)

definition metalPreset_last :: nat where
  "metalPreset_last = 15"

definition metalPresets :: "MetalPreset list" where
  "metalPresets =
    [ MetalPreset ''Silver'' (Color 0.052225 0.059582 0.040000) (Color 4.4094 3.5974 2.6484),
      MetalPreset ''Gold'' (Color 0.15557 0.42415 1.3831) (Color 3.6024 2.4721 1.9155),
      MetalPreset ''Copper'' (Color 0.23780 1.0066 1.2404) (Color 3.6264 2.5823 2.3929),
      MetalPreset ''Aluminum'' (Color 1.5580 1.0152 0.63324) (Color 7.7124 6.6273 5.4544),
      MetalPreset ''Chromium'' (Color 3.1071 3.1812 2.3230) (Color 3.3314 3.3291 3.1350),
      MetalPreset ''Lead'' (Color 2.5750 2.5444 2.1038) (Color 4.1612 4.1823 4.1890),
      MetalPreset ''Platinum'' (Color 0.47475 0.46521 0.63275) (Color 6.3329 5.1073 3.7481),
      MetalPreset ''Titanium'' (Color 0.25300 0.28822 0.52181) (Color 5.2796 4.2122 3.0367),
      MetalPreset ''Tungsten'' (Color 0.92074 1.3437 2.2323) (Color 6.8595 5.2293 5.1461),
      MetalPreset ''Iron'' (Color 1.8247 1.2246 1.0205) (Color 7.6326 5.9377 4.3952),
      MetalPreset ''Vanadium'' (Color 0.43109 0.60711 0.91187) (Color 5.5575 4.5217 3.6035),
      MetalPreset ''Zinc'' (Color 1.2338 0.92943 0.67767) (Color 5.8730 4.9751 4.0122),
      MetalPreset ''Nickel'' (Color 1.3726 1.0753 1.1336) (Color 6.6273 5.1763 3.7544),
      MetalPreset ''Mercury'' (Color 2.0733 1.5523 1.0606) (Color 5.3383 4.6510 3.8628),
      MetalPreset ''Cobalt'' (Color 2.2371 2.0524 1.7365) (Color 4.2357 3.8242 3.2745) ]"

section \<open>Finding the best IOR\<close>

text \<open>
  The inner loop of \<^verbatim>\<open>findIOR\<close> over \<^verbatim>\<open>xs = 1, ..., 199\<close>: it adds to
  \<^verbatim>\<open>sum\<close> (here \<open>sumv\<close>) the squared distance between the two reflectance curves at the cosine
  \<^verbatim>\<open>xs / 200\<close>.
\<close>

fun findIOR_samples ::
  "VUtils \<Rightarrow> Color \<Rightarrow> Color \<Rightarrow> Color \<Rightarrow> Color \<Rightarrow> real \<Rightarrow> int list \<Rightarrow> real \<Rightarrow> real option" where
  "findIOR_samples V n k base reflection ior [] sumv = Some sumv"
| "findIOR_samples V n k base reflection ior (xs # rest) sumv = do {
     let x = real_of_int xs / 200;
     vrayMetallicFresnel \<leftarrow> getVRayMetallicFresnel V base reflection ior x;
     complexFresnelC \<leftarrow> getComplexFresnel n k x;
     findIOR_samples V n k base reflection ior rest
       (sumv + lengthSqr (color_sub vrayMetallicFresnel complexFresnelC))
   }"

definition findIOR_sum ::
  "VUtils \<Rightarrow> Color \<Rightarrow> Color \<Rightarrow> Color \<Rightarrow> Color \<Rightarrow> real \<Rightarrow> real option" where
  "findIOR_sum V n k base reflection ior =
     findIOR_samples V n k base reflection ior [1..199] 0"

text \<open>
  The outer loop of \<^verbatim>\<open>findIOR\<close>, from the candidate \<open>ior\<close> on, with the best
  candidate and its sum found so far. The argument \<open>sumAt\<close> is the inner loop; the
  narrowing \<^verbatim>\<open>float(sum)\<close> is the identity on real numbers. A sum that is no number
  ends the run of the model with \<open>None\<close>.
\<close>

function findIOR_loop :: "(real \<Rightarrow> real option) \<Rightarrow> real \<Rightarrow> real \<Rightarrow> real \<Rightarrow> real option" where
  "findIOR_loop sumAt ior bestIOR bestResult =
     (if ior < 10 then
        (case sumAt ior of
           None \<Rightarrow> None
         | Some sumv \<Rightarrow>
             if sumv < bestResult then findIOR_loop sumAt (ior + 0.001) ior sumv
             else findIOR_loop sumAt (ior + 0.001) bestIOR bestResult)
      else Some bestIOR)"
  by pat_completeness auto
termination
proof (relation "measure (\<lambda>(sumAt, ior, bestIOR, bestResult). nat \<lceil>(10 - ior) * 1000\<rceil>)")
  show "wf (measure (\<lambda>(sumAt, ior, bestIOR, bestResult). nat \<lceil>(10 - ior) * 1000\<rceil>))"
    by simp
next
  fix sumAt :: "real \<Rightarrow> real option" and ior bestIOR bestResult x2 :: real
  assume "ior < 10"
  then have "\<lceil>(10 - (ior + 0.001)) * 1000\<rceil> = \<lceil>(10 - ior) * 1000\<rceil> - 1"
    and "0 < \<lceil>(10 - ior) * 1000\<rceil>"
    by (simp_all add: algebra_simps) linarith+
  then show "((sumAt, ior + 0.001, ior, x2), sumAt, ior, bestIOR, bestResult)
      \<in> measure (\<lambda>(sumAt, ior, bestIOR, bestResult). nat \<lceil>(10 - ior) * 1000\<rceil>)"
    and "((sumAt, ior + 0.001, bestIOR, bestResult), sumAt, ior, bestIOR, bestResult)
      \<in> measure (\<lambda>(sumAt, ior, bestIOR, bestResult). nat \<lceil>(10 - ior) * 1000\<rceil>)"
    by simp_all
qed

declare findIOR_loop.simps [simp del]

definition findIOR :: "VUtils \<Rightarrow> Color \<Rightarrow> Color \<Rightarrow> real option" where
  "findIOR V n k = do {
     reflection \<leftarrow> getComplexFresnel n k 0;
     base \<leftarrow> getComplexFresnel n k 1;
     findIOR_loop (findIOR_sum V n k base reflection) 1.001 (- 1) (10 ^ 18)
   }"

text \<open>
  The candidates that the outer loop visits from \<open>ior\<close> on, in the order of the visit.
\<close>

function scanned :: "real \<Rightarrow> real list" where
  "scanned ior = (if ior < 10 then ior # scanned (ior + 0.001) else [])"
  by pat_completeness auto
termination
proof (relation "measure (\<lambda>ior. nat \<lceil>(10 - ior) * 1000\<rceil>)")
  show "wf (measure (\<lambda>ior. nat \<lceil>(10 - ior) * 1000\<rceil>))"
    by simp
next
  fix ior :: real
  assume "ior < 10"
  then have "\<lceil>(10 - (ior + 0.001)) * 1000\<rceil> = \<lceil>(10 - ior) * 1000\<rceil> - 1"
    and "0 < \<lceil>(10 - ior) * 1000\<rceil>"
    by (simp_all add: algebra_simps) linarith+
  then show "(ior + 0.001, ior) \<in> measure (\<lambda>ior. nat \<lceil>(10 - ior) * 1000\<rceil>)"
    by simp
qed

declare scanned.simps [simp del]

text \<open>
  One step of the sweep on the pair of the best candidate and its sum, for sums \<open>s\<close> that
  are numbers.
\<close>

definition keepBest :: "(real \<Rightarrow> real) \<Rightarrow> real \<times> real \<Rightarrow> real \<Rightarrow> real \<times> real" where
  "keepBest s best ior = (if s ior < snd best then (ior, s ior) else best)"

text \<open>
  A refractive index that is positive at the three wavelengths, as those of the presets are.
\<close>

definition positive :: "Color \<Rightarrow> bool" where
  "positive n \<longleftrightarrow> 0 < cr n \<and> 0 < cg n \<and> 0 < cb n"

section \<open>The render cycle\<close>

text \<open>
  The state of \<^verbatim>\<open>renderCycle\<close>: the global \<^verbatim>\<open>bwidth\<close>, the global table
  \<^verbatim>\<open>metalPresets\<close>, the lines written to the CSV file and the number of
  \<^verbatim>\<open>WM_PAINT\<close> messages posted to the window. Plotting the graphs writes the pixel
  buffer only and is left out.
\<close>

datatype CsvLine =
    Header
  | Row (row_name: string) (row_diffuse: Color) (row_reflection: Color) (row_ior: real)
      (row_web: int) (row_vrayError: real) (row_oleError: real)

record RenderState =
  bwidth :: int
  presetTable :: "MetalPreset list"
  csv :: "CsvLine list"
  posted :: nat

definition initialState :: RenderState where
  "initialState = \<lparr>bwidth = 800, presetTable = metalPresets, csv = [], posted = 0\<rparr>"

text \<open>
  The loop over \<^verbatim>\<open>xs = 1, ..., N - 1\<close> that accumulates the squared errors of the two
  approximations against the complex Fresnel curve at the cosine \<^verbatim>\<open>xs / N\<close>.
\<close>

fun renderErrors_samples ::
  "VUtils \<Rightarrow> Color \<Rightarrow> Color \<Rightarrow> Color \<Rightarrow> Color \<Rightarrow> real \<Rightarrow> int \<Rightarrow> int list \<Rightarrow> real \<times> real
     \<Rightarrow> (real \<times> real) option" where
  "renderErrors_samples V n k base reflection ior N [] errs = Some errs"
| "renderErrors_samples V n k base reflection ior N (xs # rest) errs = do {
     let (vrayErrorSqr, oleErrorSqr) = errs;
     x \<leftarrow> fdiv (real_of_int xs) (real_of_int N);
     vrayMetallicFresnel \<leftarrow> getVRayMetallicFresnel V base reflection ior x;
     oleMetallicFresnel \<leftarrow> getOleMetallicFresnel base reflection x;
     complexFresnelC \<leftarrow> getComplexFresnel n k x;
     renderErrors_samples V n k base reflection ior N rest
       (vrayErrorSqr + lengthSqr (color_sub vrayMetallicFresnel complexFresnelC),
        oleErrorSqr + lengthSqr (color_sub oleMetallicFresnel complexFresnelC))
   }"

definition renderErrors ::
  "VUtils \<Rightarrow> Color \<Rightarrow> Color \<Rightarrow> Color \<Rightarrow> Color \<Rightarrow> real \<Rightarrow> int \<Rightarrow> (real \<times> real) option" where
  "renderErrors V n k base reflection ior N = do {
     errs \<leftarrow> renderErrors_samples V n k base reflection ior N [1..N - 1] (0, 0);
     let (vrayErrorSqr, oleErrorSqr) = errs;
     vrayErrorAvg \<leftarrow> fdiv vrayErrorSqr (real_of_int N);
     oleErrorAvg \<leftarrow> fdiv oleErrorSqr (real_of_int N);
     vrayError \<leftarrow> fsqrt vrayErrorAvg;
     oleError \<leftarrow> fsqrt oleErrorAvg;
     Some (vrayError, oleError)
   }"

text \<open>
  One pass of the loop over the presets. Reading the table outside its bounds has no
  defined result.
\<close>

definition floor255 :: "Color \<Rightarrow> Color" where
  "floor255 c = Color (real_of_int \<lfloor>cr c * 255\<rfloor>) (real_of_int \<lfloor>cg c * 255\<rfloor>)
     (real_of_int \<lfloor>cb c * 255\<rfloor>)"

definition renderPreset :: "VUtils \<Rightarrow> bool \<Rightarrow> RenderState \<Rightarrow> nat \<Rightarrow> RenderState option" where
  "renderPreset V fp s presetIdx =
     (if presetIdx < length (presetTable s) then do {
        let n = pn (presetTable s ! presetIdx);
        let k = pk (presetTable s ! presetIdx);
        reflection \<leftarrow> getComplexFresnel n k 0;
        base \<leftarrow> getComplexFresnel n k 1;
        ior \<leftarrow> findIOR V n k;
        let base_sRGB = encodeToSRGB V base;
        let N = bwidth s * 2;
        errs \<leftarrow> renderErrors V n k base reflection ior N;
        let (vrayError, oleError) = errs;
        let line = Row (pname (presetTable s ! presetIdx)) (floor255 base) (floor255 reflection)
                     ior (toRGB32 V base_sRGB) vrayError oleError;
        Some (s\<lparr>csv := (if fp then csv s @ [line] else csv s), posted := posted s + 1\<rparr>)
      } else None)"

fun renderCycle_loop ::
  "VUtils \<Rightarrow> bool \<Rightarrow> nat list \<Rightarrow> RenderState \<Rightarrow> RenderState option" where
  "renderCycle_loop V fp [] s = Some s"
| "renderCycle_loop V fp (presetIdx # rest) s = do {
     s' \<leftarrow> renderPreset V fp s presetIdx;
     renderCycle_loop V fp rest s'
   }"

text \<open>
  The argument \<open>fp\<close> tells whether \<^verbatim>\<open>fopen\<close> could open the CSV file for writing,
  which empties it.
\<close>

definition renderCycle :: "VUtils \<Rightarrow> bool \<Rightarrow> RenderState \<Rightarrow> RenderState option" where
  "renderCycle V fp s =
     renderCycle_loop V fp [0..<metalPreset_last]
       (if fp then s\<lparr>csv := [Header]\<rparr> else s)"

text \<open>
  The record that one pass of the loop writes for the preset \<open>p\<close>, with \<open>N\<close> twice the
  width of the window.
\<close>

definition rowFor :: "VUtils \<Rightarrow> int \<Rightarrow> MetalPreset \<Rightarrow> CsvLine \<Rightarrow> bool" where
  "rowFor V N p line \<longleftrightarrow>
     (\<exists>base reflection ior vrayError oleError.
         getComplexFresnel (pn p) (pk p) 0 = Some reflection
       \<and> getComplexFresnel (pn p) (pk p) 1 = Some base
       \<and> findIOR V (pn p) (pk p) = Some ior
       \<and> renderErrors V (pn p) (pk p) base reflection ior N = Some (vrayError, oleError)
       \<and> line = Row (pname p) (floor255 base) (floor255 reflection) ior
                  (toRGB32 V (encodeToSRGB V base)) vrayError oleError)"

text \<open>
  The two sums and the two error scores that one pass of the loop of \<^verbatim>\<open>renderCycle\<close>
  computes for the preset \<open>p\<close>, with \<open>N\<close> twice the width of the window, and the sum that
  \<^verbatim>\<open>findIOR\<close> accumulates for the candidate \<open>ior\<close> on that preset.
\<close>

definition presetSums :: "VUtils \<Rightarrow> int \<Rightarrow> MetalPreset \<Rightarrow> (real \<times> real) option" where
  "presetSums V N p = do {
     reflection \<leftarrow> getComplexFresnel (pn p) (pk p) 0;
     base \<leftarrow> getComplexFresnel (pn p) (pk p) 1;
     ior \<leftarrow> findIOR V (pn p) (pk p);
     renderErrors_samples V (pn p) (pk p) base reflection ior N [1..N - 1] (0, 0)
   }"

definition presetErrors :: "VUtils \<Rightarrow> int \<Rightarrow> MetalPreset \<Rightarrow> (real \<times> real) option" where
  "presetErrors V N p = do {
     reflection \<leftarrow> getComplexFresnel (pn p) (pk p) 0;
     base \<leftarrow> getComplexFresnel (pn p) (pk p) 1;
     ior \<leftarrow> findIOR V (pn p) (pk p);
     renderErrors V (pn p) (pk p) base reflection ior N
   }"

definition fitterSums :: "VUtils \<Rightarrow> MetalPreset \<Rightarrow> real \<Rightarrow> real option" where
  "fitterSums V p ior = do {
     reflection \<leftarrow> getComplexFresnel (pn p) (pk p) 0;
     base \<leftarrow> getComplexFresnel (pn p) (pk p) 1;
     findIOR_sum V (pn p) (pk p) base reflection ior
   }"

text \<open>
  Modelled from the spec: the error score of section 4.4, steps 3 and 4, the root of an
  accumulated sum \<open>s\<close> of squared errors normalised by the sample count \<open>m\<close>.
\<close>

definition spec_rmse :: "int \<Rightarrow> real \<Rightarrow> real" where
  "spec_rmse m s = sqrt (s / real_of_int m)"

section \<open>Two rendering libraries for the examples\<close>

text \<open>
  The first has the Fresnel coefficient \<open>1 / 2\<close> everywhere. The second has the same
  coefficient except towards the view direction \<open>(sqrt (1 - c\<^sup>2), 0, - c)\<close> of the cosine
  \<open>c = 1 / 1600\<close>, where its coefficient is \<open>0\<close>.
\<close>

definition exampleLibrary :: VUtils where
  "exampleLibrary =
     \<lparr>getRefractDir = (\<lambda>viewDir normal ior. (viewDir, False)),
      getFresnelCoeff = (\<lambda>viewDir normal refractDir ior. 1 / 2),
      encodeToSRGB = (\<lambda>c. c),
      toRGB32 = (\<lambda>c. 0)\<rparr>"

definition grazingLibrary :: VUtils where
  "grazingLibrary =
     \<lparr>getRefractDir = (\<lambda>viewDir normal ior. (viewDir, False)),
      getFresnelCoeff = (\<lambda>viewDir normal refractDir ior.
         case viewDir of Vector3f x y z \<Rightarrow> if z = - (1 / 1600) then 0 else 1 / 2),
      encodeToSRGB = (\<lambda>c. c),
      toRGB32 = (\<lambda>c. 0)\<rparr>"

section \<open>Binary32 numbers\<close>

text \<open>
  A value of type \<^verbatim>\<open>float\<close> is a number of the binary32 format, an infinity or NaN.
  An arithmetic operation computes the exact result and rounds it to the nearest number of
  the format, ties to even; a result beyond the largest number is an infinity. The file is
  built for x64, as its header says, where every \<^verbatim>\<open>float\<close> operation rounds to binary32.
  The two zeros are identified: a sum is a negative zero only when both summands are, so
  no denominator of the functions embedded below is a negative zero.

  The format is given by its precision \<open>p\<close> and its least and greatest exponents; binary32
  has \<open>p = 24\<close>, \<open>emin = -126\<close> and \<open>emax = 127\<close>. \<open>quantum\<close> is the distance between
  neighbouring numbers of the format at the magnitude of \<open>x\<close>.
\<close>

datatype fl = Num real | PInf | NInf | NaN

definition round_even :: "real \<Rightarrow> int" where
  "round_even t =
     (let f = \<lfloor>t\<rfloor>; d = t - of_int f
      in if d < 1 / 2 then f else if 1 / 2 < d then f + 1 else if even f then f else f + 1)"

definition quantum :: "int \<Rightarrow> int \<Rightarrow> real \<Rightarrow> real" where
  "quantum p emin x = 2 powi (max \<lfloor>log 2 \<bar>x\<bar>\<rfloor> emin - p + 1)"

definition rnd :: "int \<Rightarrow> int \<Rightarrow> int \<Rightarrow> real \<Rightarrow> fl" where
  "rnd p emin emax x =
     (if x = 0 then Num 0
      else let q = quantum p emin x; y = q * of_int (round_even (x / q))
           in if 2 powi (emax + 1) \<le> \<bar>y\<bar> then (if 0 < x then PInf else NInf) else Num y)"

definition floats :: "int \<Rightarrow> int \<Rightarrow> int \<Rightarrow> real set" where
  "floats p emin emax =
     {x. \<exists>m e. x = of_int m * 2 powi e \<and> \<bar>m\<bar> < 2 ^ nat p \<and> emin - p + 1 \<le> e \<and> e \<le> emax - p + 1}"

definition rnd32 :: "real \<Rightarrow> fl" where
  "rnd32 = rnd 24 (- 126) 127"

definition float32 :: "real set" where
  "float32 = floats 24 (- 126) 127"

text \<open>
  The operations \<^verbatim>\<open>-x\<close>, \<^verbatim>\<open>x + y\<close>, \<^verbatim>\<open>x - y\<close>, \<^verbatim>\<open>x * y\<close>, \<^verbatim>\<open>x / y\<close>,
  \<^verbatim>\<open>x < y\<close> and \<^verbatim>\<open>sqrtf\<close> on \<^verbatim>\<open>float\<close>, with the results that IEEE 754 gives for
  infinities and NaN.
\<close>

fun fl_neg :: "fl \<Rightarrow> fl" where
  "fl_neg (Num x) = Num (- x)"
| "fl_neg PInf = NInf"
| "fl_neg NInf = PInf"
| "fl_neg NaN = NaN"

fun fl_add :: "fl \<Rightarrow> fl \<Rightarrow> fl" where
  "fl_add (Num x) (Num y) = rnd32 (x + y)"
| "fl_add NaN b = NaN"
| "fl_add a NaN = NaN"
| "fl_add PInf NInf = NaN"
| "fl_add NInf PInf = NaN"
| "fl_add PInf b = PInf"
| "fl_add NInf b = NInf"
| "fl_add a PInf = PInf"
| "fl_add a NInf = NInf"

definition fl_sub :: "fl \<Rightarrow> fl \<Rightarrow> fl" where
  "fl_sub a b = fl_add a (fl_neg b)"

fun fl_sign :: "fl \<Rightarrow> int" where
  "fl_sign (Num x) = (if x = 0 then 0 else if 0 < x then 1 else - 1)"
| "fl_sign PInf = 1"
| "fl_sign NInf = - 1"
| "fl_sign NaN = 0"

fun fl_mul :: "fl \<Rightarrow> fl \<Rightarrow> fl" where
  "fl_mul (Num x) (Num y) = rnd32 (x * y)"
| "fl_mul NaN b = NaN"
| "fl_mul a NaN = NaN"
| "fl_mul a b =
     (if fl_sign a * fl_sign b = 0 then NaN else if 0 < fl_sign a * fl_sign b then PInf else NInf)"

fun fl_div :: "fl \<Rightarrow> fl \<Rightarrow> fl" where
  "fl_div (Num x) (Num y) =
     (if y = 0 then (if x = 0 then NaN else if 0 < x then PInf else NInf) else rnd32 (x / y))"
| "fl_div NaN b = NaN"
| "fl_div a NaN = NaN"
| "fl_div (Num x) b = Num 0"
| "fl_div a (Num y) = (if 0 \<le> y then a else fl_neg a)"
| "fl_div a b = NaN"

fun fl_less :: "fl \<Rightarrow> fl \<Rightarrow> bool" where
  "fl_less (Num x) (Num y) \<longleftrightarrow> x < y"
| "fl_less NaN b \<longleftrightarrow> False"
| "fl_less a NaN \<longleftrightarrow> False"
| "fl_less a NInf \<longleftrightarrow> False"
| "fl_less NInf b \<longleftrightarrow> True"
| "fl_less PInf b \<longleftrightarrow> False"
| "fl_less a PInf \<longleftrightarrow> True"


section \<open>The functions in binary32\<close>




datatype Vector3f32 = Vector3f32 fl fl fl

text \<open>
  The rendering library in binary32. \<^verbatim>\<open>getRefractDir\<close> and \<^verbatim>\<open>getFresnelCoeff\<close> are
  parameters, as before. What \<^verbatim>\<open>clamp\<close> of \<^verbatim>\<open>utils.h\<close> returns for an argument that is
  NaN depends on how the library writes its comparisons, which the repository does not
  show; it is the parameter \<open>clampNaN\<close>, a function of the two bounds.
\<close>

record VUtils32 =
  clampNaN :: "fl \<Rightarrow> fl \<Rightarrow> fl"
  getRefractDir32 :: "Vector3f32 \<Rightarrow> Vector3f32 \<Rightarrow> fl \<Rightarrow> Vector3f32 \<times> bool"
  getFresnelCoeff32 :: "Vector3f32 \<Rightarrow> Vector3f32 \<Rightarrow> Vector3f32 \<Rightarrow> fl \<Rightarrow> fl"

text \<open>
  Modelled from the spec: \<^verbatim>\<open>clamp\<close> of \<^verbatim>\<open>utils.h\<close> on \<^verbatim>\<open>float\<close>. For a number or an
  infinity it is the restriction to the interval.
\<close>

definition clamp32 :: "VUtils32 \<Rightarrow> fl \<Rightarrow> fl \<Rightarrow> fl \<Rightarrow> fl" where
  "clamp32 V x a b =
     (if x = NaN then clampNaN V a b
      else if fl_less x a then a else if fl_less b x then b else x)"


definition get_r32 :: "fl \<Rightarrow> fl \<Rightarrow> fl" where
  "get_r32 n k =
     fl_div (fl_add (fl_mul (fl_sub n (Num 1)) (fl_sub n (Num 1))) (fl_mul k k))
            (fl_add (fl_mul (fl_add n (Num 1)) (fl_add n (Num 1))) (fl_mul k k))"

definition complexFresnel32 :: "VUtils32 \<Rightarrow> fl \<Rightarrow> fl \<Rightarrow> fl \<Rightarrow> fl" where
  "complexFresnel32 V n k c =
     (let k2 = fl_mul k k;
          rs_num = fl_add (fl_sub (fl_add (fl_mul n n) k2) (fl_mul (fl_mul (Num 2) n) c)) (fl_mul c c);
          rs_den = fl_add (fl_add (fl_add (fl_mul n n) k2) (fl_mul (fl_mul (Num 2) n) c)) (fl_mul c c);
          rs = fl_div rs_num rs_den;
          rp_num = fl_add (fl_sub (fl_mul (fl_mul (fl_add (fl_mul n n) k2) c) c)
                                  (fl_mul (fl_mul (Num 2) n) c)) (Num 1);
          rp_den = fl_add (fl_add (fl_mul (fl_mul (fl_add (fl_mul n n) k2) c) c)
                                  (fl_mul (fl_mul (Num 2) n) c)) (Num 1);
          rp = fl_div rp_num rp_den
      in clamp32 V (fl_mul (Num (1 / 2)) (fl_add rs rp)) (Num 0) (Num 1))"

text \<open>
  The local variables \<^verbatim>\<open>rs_num\<close>, \<^verbatim>\<open>rs_den\<close>, \<^verbatim>\<open>rp_num\<close> and \<^verbatim>\<open>rp_den\<close> of
  \<^verbatim>\<open>complexFresnel\<close>, as functions of its arguments.
\<close>

definition rs_num32 :: "fl \<Rightarrow> fl \<Rightarrow> fl \<Rightarrow> fl" where
  "rs_num32 n k c =
     fl_add (fl_sub (fl_add (fl_mul n n) (fl_mul k k)) (fl_mul (fl_mul (Num 2) n) c)) (fl_mul c c)"

definition rs_den32 :: "fl \<Rightarrow> fl \<Rightarrow> fl \<Rightarrow> fl" where
  "rs_den32 n k c =
     fl_add (fl_add (fl_add (fl_mul n n) (fl_mul k k)) (fl_mul (fl_mul (Num 2) n) c)) (fl_mul c c)"

definition rp_num32 :: "fl \<Rightarrow> fl \<Rightarrow> fl \<Rightarrow> fl" where
  "rp_num32 n k c =
     fl_add (fl_sub (fl_mul (fl_mul (fl_add (fl_mul n n) (fl_mul k k)) c) c)
                    (fl_mul (fl_mul (Num 2) n) c)) (Num 1)"

definition rp_den32 :: "fl \<Rightarrow> fl \<Rightarrow> fl \<Rightarrow> fl" where
  "rp_den32 n k c =
     fl_add (fl_add (fl_mul (fl_mul (fl_add (fl_mul n n) (fl_mul k k)) c) c)
                    (fl_mul (fl_mul (Num 2) n) c)) (Num 1)"


text \<open>
  A library for the examples: its Fresnel coefficient is \<open>f\<close> everywhere, and its
  \<^verbatim>\<open>clamp\<close> hands NaN back.
\<close>

definition constantLibrary32 :: "fl \<Rightarrow> VUtils32" where
  "constantLibrary32 f =
     \<lparr>clampNaN = (\<lambda>a b. NaN),
      getRefractDir32 = (\<lambda>viewDir normal ior. (viewDir, False)),
      getFresnelCoeff32 = (\<lambda>viewDir normal refractDir ior. f)\<rparr>"

section \<open>Normal incidence\<close>

lemma half_twice: "0.5 * (x + x) = (x::real)"
  by simp

lemma clamp_id: "a \<le> x \<Longrightarrow> x \<le> b \<Longrightarrow> clamp x a b = x"
  by (simp add: clamp_def)

lemma clamp_range: "a \<le> b \<Longrightarrow> a \<le> clamp x a b \<and> clamp x a b \<le> b"
  by (simp add: clamp_def)

lemma fdiv_Some: "b \<noteq> 0 \<Longrightarrow> fdiv a b = Some (a / b)"
  by (simp add: fdiv_def)

lemma normal_den_pos:
  fixes n k :: real
  assumes "0 \<le> n"
  shows "0 < (n + 1) * (n + 1) + k * k"
proof -
  have "0 < (n + 1) * (n + 1)" using assms by simp
  moreover have "0 \<le> k * k" by simp
  ultimately show ?thesis by linarith
qed

lemma normal_ratio_range:
  fixes n k :: real
  assumes "0 \<le> n"
  shows "0 \<le> ((n - 1) * (n - 1) + k * k) / ((n + 1) * (n + 1) + k * k)"
    and "((n - 1) * (n - 1) + k * k) / ((n + 1) * (n + 1) + k * k) \<le> 1"
proof -
  have d: "0 < (n + 1) * (n + 1) + k * k" by (rule normal_den_pos [OF assms])
  have nn: "0 \<le> (n - 1) * (n - 1) + k * k" by simp
  show "0 \<le> ((n - 1) * (n - 1) + k * k) / ((n + 1) * (n + 1) + k * k)"
    using d nn by simp
  have "(n - 1) * (n - 1) + k * k \<le> (n + 1) * (n + 1) + k * k"
    using assms by (simp add: algebra_simps)
  then show "((n - 1) * (n - 1) + k * k) / ((n + 1) * (n + 1) + k * k) \<le> 1"
    using d by simp
qed

text \<open>In exact arithmetic the value at normal incidence is the closed form.\<close>

lemma complexFresnel_normal:
  fixes n k :: real
  assumes "0 \<le> n"
  shows "complexFresnel n k 1 = Some (((n - 1) * (n - 1) + k * k) / ((n + 1) * (n + 1) + k * k))"
proof -
  let ?A = "(n - 1) * (n - 1) + k * k"
  let ?B = "(n + 1) * (n + 1) + k * k"
  have d: "0 < ?B" by (rule normal_den_pos [OF assms])
  have e1: "n * n + k * k - 2 * n * 1 + 1 * 1 = ?A" by (simp add: algebra_simps)
  have e2: "n * n + k * k + 2 * n * 1 + 1 * 1 = ?B" by (simp add: algebra_simps)
  have e3: "(n * n + k * k) * 1 * 1 - 2 * n * 1 + 1 = ?A" by (simp add: algebra_simps)
  have e4: "(n * n + k * k) * 1 * 1 + 2 * n * 1 + 1 = ?B" by (simp add: algebra_simps)
  have B0: "?B \<noteq> 0" using d by (metis less_irrefl)
  have h: "0.5 * (?A / ?B + ?A / ?B) = ?A / ?B" by (rule half_twice)
  have c: "clamp (0.5 * (?A / ?B + ?A / ?B)) 0 1 = ?A / ?B"
    unfolding h by (rule clamp_id [OF normal_ratio_range [OF assms]])
  have f: "fdiv ?A ?B = Some (?A / ?B)" using B0 by (simp only: fdiv_def if_False)
  show ?thesis
    unfolding complexFresnel_def Let_def e1 e2 e3 e4 f
    by (simp only: bind.bind_lunit c)
qed

section \<open>The range of the complex Fresnel formula\<close>

lemma rs_den_pos:
  fixes n k c :: real
  assumes "0 \<le> n" "0 \<le> c" "n \<noteq> 0 \<or> k \<noteq> 0 \<or> c \<noteq> 0"
  shows "0 < n * n + k * k + 2 * n * c + c * c"
proof -
  have a: "0 \<le> n * n" "0 \<le> k * k" "0 \<le> c * c" by simp_all
  have b: "0 \<le> n * c" using assms(1,2) by simp
  have e: "2 * n * c = 2 * (n * c)" by simp
  have "0 < n * n \<or> 0 < k * k \<or> 0 < c * c"
    using assms(3) by (auto simp: zero_less_mult_iff)
  then show ?thesis unfolding e using a b by linarith
qed

lemma rp_den_pos:
  fixes n k c :: real
  assumes "0 \<le> n" "0 \<le> c"
  shows "1 \<le> (n * n + k * k) * c * c + 2 * n * c + 1"
proof -
  have a1: "0 \<le> n * n + k * k" by simp
  have a2: "0 \<le> c * c" by simp
  have a: "0 \<le> (n * n + k * k) * (c * c)" by (rule mult_nonneg_nonneg [OF a1 a2])
  have b: "0 \<le> n * c" using assms by simp
  have e: "(n * n + k * k) * c * c = (n * n + k * k) * (c * c)" by simp
  have e2: "2 * n * c = 2 * (n * c)" by simp
  show ?thesis unfolding e e2 using a b by linarith
qed

lemma complexFresnel_Some:
  assumes "n * n + k * k + 2 * n * c + c * c \<noteq> 0"
    and "(n * n + k * k) * c * c + 2 * n * c + 1 \<noteq> 0"
  shows "complexFresnel n k c =
    Some (clamp (0.5 * ((n * n + k * k - 2 * n * c + c * c) / (n * n + k * k + 2 * n * c + c * c)
       + ((n * n + k * k) * c * c - 2 * n * c + 1) / ((n * n + k * k) * c * c + 2 * n * c + 1))) 0 1)"
  unfolding complexFresnel_def Let_def fdiv_Some [OF assms(1)] fdiv_Some [OF assms(2)]
  by (simp only: bind.bind_lunit)

lemma complexFresnel_unit:
  assumes "0 \<le> n" "0 \<le> c" "n \<noteq> 0 \<or> k \<noteq> 0 \<or> c \<noteq> 0"
  shows "\<exists>v. complexFresnel n k c = Some v \<and> 0 \<le> v \<and> v \<le> 1"
proof -
  have d1: "n * n + k * k + 2 * n * c + c * c \<noteq> 0"
    using rs_den_pos [OF assms] by (metis less_irrefl)
  have d2: "(n * n + k * k) * c * c + 2 * n * c + 1 \<noteq> 0"
    using rp_den_pos [OF assms(1,2), of k] by linarith
  show ?thesis
    unfolding complexFresnel_Some [OF d1 d2]
    using clamp_range [of 0 1] by simp
qed

lemma getComplexFresnel_Some:
  assumes "complexFresnel (cr n) (cr k) c = Some x"
    and "complexFresnel (cg n) (cg k) c = Some y"
    and "complexFresnel (cb n) (cb k) c = Some z"
  shows "getComplexFresnel n k c = Some (Color x y z)"
  unfolding getComplexFresnel_def assms by (simp only: bind.bind_lunit)

lemma getComplexFresnel_unit:
  assumes "nonneg n" "0 \<le> c" "\<not> degenerate n k c"
  shows "\<exists>x y z. getComplexFresnel n k c = Some (Color x y z)
           \<and> 0 \<le> x \<and> x \<le> 1 \<and> 0 \<le> y \<and> y \<le> 1 \<and> 0 \<le> z \<and> z \<le> 1"
proof -
  have n: "0 \<le> cr n" "0 \<le> cg n" "0 \<le> cb n" using assms(1) by (simp_all add: nonneg_def)
  have r: "cr n \<noteq> 0 \<or> cr k \<noteq> 0 \<or> c \<noteq> 0"
    and g: "cg n \<noteq> 0 \<or> cg k \<noteq> 0 \<or> c \<noteq> 0"
    and b: "cb n \<noteq> 0 \<or> cb k \<noteq> 0 \<or> c \<noteq> 0"
    using assms(3) unfolding degenerate_def by blast+
  obtain x where x: "complexFresnel (cr n) (cr k) c = Some x" "0 \<le> x" "x \<le> 1"
    using complexFresnel_unit [OF n(1) assms(2) r] by blast
  obtain y where y: "complexFresnel (cg n) (cg k) c = Some y" "0 \<le> y" "y \<le> 1"
    using complexFresnel_unit [OF n(2) assms(2) g] by blast
  obtain z where z: "complexFresnel (cb n) (cb k) c = Some z" "0 \<le> z" "z \<le> 1"
    using complexFresnel_unit [OF n(3) assms(2) b] by blast
  show ?thesis
    using getComplexFresnel_Some [OF x(1) y(1) z(1)] x(2,3) y(2,3) z(2,3) by blast
qed

section \<open>The back-solve of the artist-friendly formula\<close>

lemma fsqrt_Some: "0 \<le> x \<Longrightarrow> fsqrt x = Some (sqrt x)"
  by (simp add: fsqrt_def)

lemma n_min_Some: "0 \<le> r \<Longrightarrow> n_min r = Some ((1 - r) / (1 + r))"
  unfolding n_min_def by (rule fdiv_Some) linarith

lemma n_max_Some:
  assumes "0 \<le> r" "r < 1"
  shows "n_max r = Some ((1 + sqrt r) / (1 - sqrt r))"
proof -
  have "sqrt r < 1" using assms by simp
  then have d: "1 - sqrt r \<noteq> 0" by linarith
  show ?thesis
    unfolding n_max_def fsqrt_Some [OF assms(1)] fdiv_Some [OF d, symmetric]
    by (simp only: bind.bind_lunit)
qed

lemma get_n_Some:
  assumes "0 \<le> r" "r < 1"
  shows "get_n r g = Some ((1 - r) / (1 + r) * g + (1 - g) * ((1 + sqrt r) / (1 - sqrt r)))"
  unfolding get_n_def n_min_Some [OF assms(1)] n_max_Some [OF assms]
  by (simp only: bind.bind_lunit)

lemma get_k2_Some:
  assumes "r < 1"
  shows "get_k2 r n = Some (((n + 1) * (n + 1) * r - (n - 1) * (n - 1)) / (1 - r))"
proof -
  have d: "1 - r \<noteq> 0" using assms by linarith
  show ?thesis unfolding get_k2_def Let_def by (rule fdiv_Some [OF d])
qed

lemma n_bounds:
  fixes r :: real
  assumes "0 \<le> r" "r < 1"
  shows "0 < (1 - r) / (1 + r)" and "(1 - r) / (1 + r) \<le> 1"
    and "1 \<le> (1 + sqrt r) / (1 - sqrt r)"
    and "0 < r \<Longrightarrow> 1 < (1 + sqrt r) / (1 - sqrt r)"
proof -
  have p: "0 < 1 + r" "0 < 1 - r" using assms by linarith+
  show "0 < (1 - r) / (1 + r)" using p by simp
  show "(1 - r) / (1 + r) \<le> 1" using p assms by simp
  have s: "0 \<le> sqrt r" "sqrt r < 1" using assms by simp_all
  then have q: "0 < 1 - sqrt r" by linarith
  show "1 \<le> (1 + sqrt r) / (1 - sqrt r)" using q s by simp
  show "1 < (1 + sqrt r) / (1 - sqrt r)" if "0 < r"
  proof -
    have "0 < sqrt r" using that by simp
    then show ?thesis using q by simp
  qed
qed

lemma get_r_range:
  fixes n k :: real
  assumes "0 < n"
  shows "get_r n k = Some (((n - 1) * (n - 1) + k * k) / ((n + 1) * (n + 1) + k * k))"
    and "0 \<le> ((n - 1) * (n - 1) + k * k) / ((n + 1) * (n + 1) + k * k)"
    and "((n - 1) * (n - 1) + k * k) / ((n + 1) * (n + 1) + k * k) < 1"
    and "\<not> (n = 1 \<and> k = 0) \<Longrightarrow> 0 < ((n - 1) * (n - 1) + k * k) / ((n + 1) * (n + 1) + k * k)"
proof -
  let ?A = "(n - 1) * (n - 1) + k * k"
  let ?B = "(n + 1) * (n + 1) + k * k"
  have n0: "0 \<le> n" using assms by simp
  have d: "0 < ?B" by (rule normal_den_pos [OF n0])
  then have B0: "?B \<noteq> 0" by (metis less_irrefl)
  show "get_r n k = Some (?A / ?B)" unfolding get_r_def by (rule fdiv_Some [OF B0])
  show "0 \<le> ?A / ?B" by (rule normal_ratio_range(1) [OF n0])
  have "?B - ?A = 4 * n" by (simp add: algebra_simps)
  then have "?A < ?B" using assms by linarith
  then show "?A / ?B < 1" using d by simp
  show "0 < ?A / ?B" if h: "\<not> (n = 1 \<and> k = 0)"
  proof -
    have "0 < (n - 1) * (n - 1) \<or> 0 < k * k"
      using h by (auto simp: zero_less_mult_iff)
    moreover have "0 \<le> (n - 1) * (n - 1)" "0 \<le> k * k" by simp_all
    ultimately have "0 < ?A" by linarith
    then show ?thesis using d by simp
  qed
qed

lemma frac_diff: "B \<noteq> 0 \<Longrightarrow> x * (A / B) - y = (x * A - y * B) / (B::real)"
  by (simp add: field_simps)

lemma blend_as_diff: "lo * g + (1 - g) * hi = hi - g * (hi - (lo::real))"
  by (simp add: algebra_simps)

lemma get_k2_inverts:
  fixes n k :: real
  assumes "0 < n"
  shows "get_k2 (((n - 1) * (n - 1) + k * k) / ((n + 1) * (n + 1) + k * k)) n = Some (k * k)"
proof -
  let ?A = "(n - 1) * (n - 1) + k * k"
  let ?B = "(n + 1) * (n + 1) + k * k"
  have n0: "0 \<le> n" using assms by simp
  have d: "0 < ?B" by (rule normal_den_pos [OF n0])
  then have B0: "?B \<noteq> 0" by (metis less_irrefl)
  have r1: "?A / ?B < 1" by (rule get_r_range(3) [OF assms])
  have BA: "?B - ?A = 4 * n" by (simp add: algebra_simps)
  have one: "1 - ?A / ?B = 4 * n / ?B"
    using B0 BA by (metis diff_divide_distrib div_self)
  have num: "(n + 1) * (n + 1) * ?A - (n - 1) * (n - 1) * ?B = k * k * (4 * n)"
    by (simp add: algebra_simps)
  have "(n + 1) * (n + 1) * (?A / ?B) - (n - 1) * (n - 1) = ((n + 1) * (n + 1) * ?A - (n - 1) * (n - 1) * ?B) / ?B"
    by (rule frac_diff [OF B0])
  then have num': "(n + 1) * (n + 1) * (?A / ?B) - (n - 1) * (n - 1) = k * k * (4 * n) / ?B"
    unfolding num .
  have "(k * k * (4 * n) / ?B) / (4 * n / ?B) = k * k"
    using B0 assms by simp
  then show ?thesis
    unfolding get_k2_Some [OF r1] num' one by simp
qed

lemma get_n_inverts:
  fixes lo hi n :: real
  assumes "hi \<noteq> lo"
  shows "lo * ((hi - n) / (hi - lo)) + (1 - (hi - n) / (hi - lo)) * hi = n"
proof -
  have d: "hi - lo \<noteq> 0" using assms by simp
  have "lo * ((hi - n) / (hi - lo)) + (1 - (hi - n) / (hi - lo)) * hi
      = hi - ((hi - n) / (hi - lo)) * (hi - lo)"
    by (rule blend_as_diff)
  also have "\<dots> = hi - (hi - n)" using d by simp
  finally show ?thesis by simp
qed

lemma back_solve:
  fixes n k :: real
  assumes "0 < n" "\<not> (n = 1 \<and> k = 0)"
  shows "\<exists>r g. get_r n k = Some r \<and> get_g n k = Some g \<and> get_n r g = Some n
           \<and> get_k2 r n = Some (k * k)"
proof -
  let ?r = "((n - 1) * (n - 1) + k * k) / ((n + 1) * (n + 1) + k * k)"
  let ?lo = "(1 - ?r) / (1 + ?r)"
  let ?hi = "(1 + sqrt ?r) / (1 - sqrt ?r)"
  let ?g = "(?hi - n) / (?hi - ?lo)"
  note R = get_r_range [OF assms(1), of k]
  have r0: "0 \<le> ?r" and r1: "?r < 1" and rp: "0 < ?r"
    using R(2) R(3) R(4) [OF assms(2)] by blast+
  have "?lo \<le> 1" "1 < ?hi" using n_bounds(2) [OF r0 r1] n_bounds(4) [OF r0 r1 rp] by blast+
  then have ne: "?hi \<noteq> ?lo" by linarith
  then have d: "?hi - ?lo \<noteq> 0" by simp
  have g: "get_g n k = Some ?g"
    unfolding get_g_def R(1) bind.bind_lunit n_max_Some [OF r0 r1] n_min_Some [OF r0]
    by (rule fdiv_Some [OF d])
  have n: "get_n ?r ?g = Some n"
    unfolding get_n_Some [OF r0 r1] get_n_inverts [OF ne] ..
  show ?thesis
    using R(1) g n get_k2_inverts [OF assms(1), of k] by blast
qed

lemma get_g_degenerate: "get_r 1 0 = Some 0 \<and> get_g 1 0 = None"
  by (simp add: get_g_def get_r_def n_max_def n_min_def fdiv_def fsqrt_def)

text \<open>
  C10, as amended. For every \<open>n > 0\<close> and \<open>k \<ge> 0\<close> other than \<open>n = 1\<close>, \<open>k = 0\<close>, with
  \<open>r = get_r(n, k)\<close> and \<open>g = get_g(n, k)\<close>: \<open>get_n(r, g) = n\<close> and
  \<open>get_k2(r, get_n(r, g)) = k\<^sup>2\<close>.
\<close>

theorem back_solve_inverts:
  assumes "0 < n" and "0 \<le> k" and "\<not> (n = 1 \<and> k = 0)"
  shows "\<exists>r g. get_r n k = Some r \<and> get_g n k = Some g \<and> get_n r g = Some n
           \<and> (get_n r g \<bind> get_k2 r) = Some (k\<^sup>2)"
proof -
  obtain r g where h: "get_r n k = Some r" "get_g n k = Some g" "get_n r g = Some n"
      "get_k2 r n = Some (k * k)"
    using back_solve [OF assms(1,3)] by blast
  have "(get_n r g \<bind> get_k2 r) = Some (k\<^sup>2)"
    unfolding h(3) bind.bind_lunit h(4) by (simp add: power2_eq_square)
  with h show ?thesis by blast
qed

theorem back_solve_inverts_witness:
  "\<exists>r g. get_r 3 4 = Some r \<and> get_g 3 4 = Some g \<and> get_n r g = Some 3
     \<and> (get_n r g \<bind> get_k2 r) = Some (4\<^sup>2)"
  using back_solve_inverts [of 3 4] by simp

text \<open>
  At \<open>n = 1\<close>, \<open>k = 0\<close> the reflectance \<open>r\<close> is zero, the bounds \<open>n_min\<close> and
  \<open>n_max\<close> coincide, and \<^verbatim>\<open>get_g\<close> divides zero by zero.
\<close>

theorem back_solve_undefined: "get_r 1 0 = Some 0 \<and> get_g 1 0 = None"
  by (rule get_g_degenerate)

section \<open>The blend of the material\<close>

lemma cos_sq_le_one:
  fixes c :: real
  assumes "0 \<le> c" "c \<le> 1"
  shows "0 \<le> 1 - c * c"
proof -
  have "c * c \<le> 1 * 1" by (rule mult_mono) (use assms in simp_all)
  then show ?thesis by simp
qed

lemma getVRayMetallicFresnel_Some:
  assumes "0 \<le> 1 - cs * cs"
  shows "getVRayMetallicFresnel V base reflection ior cs =
    Some (color_add (color_scale base (1 - vrayFresnel V ior cs))
            (color_scale reflection (vrayFresnel V ior cs)))"
  unfolding getVRayMetallicFresnel_def fsqrt_Some [OF assms] vrayFresnel_def
  by (simp add: Let_def split: prod.split)

text \<open>In exact arithmetic the blend of a color with itself is that color.\<close>

lemma blend_same: "color_add (color_scale c (1 - f)) (color_scale c f) = c"
proof -
  have e: "x * (1 - f) + x * f = x" for x :: real by (simp add: algebra_simps)
  show ?thesis unfolding color_add_def color_scale_def Color.sel e by simp
qed

lemma lengthSqr_nonneg: "0 \<le> lengthSqr c"
  unfolding lengthSqr_def by (intro add_nonneg_nonneg) simp_all

section \<open>The artist-friendly formula is defined\<close>

lemma ratio_dens:
  fixes N n c :: real
  assumes "1 \<le> N" "0 \<le> n" "0 \<le> c"
  shows "N + 2 * n * c + c * c \<noteq> 0" and "N * c * c + 2 * n * c + 1 \<noteq> 0"
proof -
  have a: "0 \<le> n * c" "0 \<le> c * c" using assms by simp_all
  have b: "0 \<le> N * (c * c)" using assms(1) a(2) by simp
  have e: "2 * n * c = 2 * (n * c)" "N * c * c = N * (c * c)" by simp_all
  show "N + 2 * n * c + c * c \<noteq> 0" unfolding e using a assms(1) by linarith
  show "N * c * c + 2 * n * c + 1 \<noteq> 0" unfolding e using a b by linarith
qed

lemma ole_index_bound:
  fixes r g :: real
  assumes "0 \<le> r" "r < 1" "0 \<le> g" "g \<le> 1"
  shows "(1 - r) / (1 + r) \<le> (1 - r) / (1 + r) * g + (1 - g) * ((1 + sqrt r) / (1 - sqrt r))"
proof -
  let ?lo = "(1 - r) / (1 + r)"
  let ?hi = "(1 + sqrt r) / (1 - sqrt r)"
  have "?lo \<le> ?hi" using n_bounds(2,3) [OF assms(1,2)] by linarith
  then have "(1 - g) * ?lo \<le> (1 - g) * ?hi"
    using assms(4) by (intro mult_left_mono) simp_all
  moreover have "x * g + (1 - g) * x = x" for x :: real by (simp add: algebra_simps)
  then have "?lo * g + (1 - g) * ?lo = ?lo" .
  ultimately show ?thesis by linarith
qed

lemma ole_norm_bound:
  fixes r n :: real
  assumes "0 \<le> r" "r < 1" "(1 - r) / (1 + r) \<le> n"
  shows "1 \<le> n * n + ((n + 1) * (n + 1) * r - (n - 1) * (n - 1)) / (1 - r)"
proof -
  have d: "0 < 1 - r" "0 < 1 + r" using assms by linarith+
  have "1 - r \<le> n * (1 + r)" using assms(3) d(2) by (simp add: pos_divide_le_eq)
  then have "0 \<le> 2 * (n * (1 + r) - (1 - r))" by simp
  also have "2 * (n * (1 + r) - (1 - r))
      = n * n * (1 - r) + ((n + 1) * (n + 1) * r - (n - 1) * (n - 1)) - (1 - r)"
    by (simp add: algebra_simps)
  finally have "1 - r \<le> n * n * (1 - r) + ((n + 1) * (n + 1) * r - (n - 1) * (n - 1))"
    by simp
  then have "(1 - r) / (1 - r) \<le> (n * n * (1 - r) + ((n + 1) * (n + 1) * r - (n - 1) * (n - 1))) / (1 - r)"
    using d(1) by (intro divide_right_mono) simp_all
  moreover have "(1 - r) / (1 - r) = 1" using d(1) by simp
  moreover have "(n * n * (1 - r) + ((n + 1) * (n + 1) * r - (n - 1) * (n - 1))) / (1 - r)
      = n * n + ((n + 1) * (n + 1) * r - (n - 1) * (n - 1)) / (1 - r)"
    using d(1) by (simp add: add_divide_distrib)
  ultimately show ?thesis by simp
qed

lemma olefresnel_Some:
  assumes "0 \<le> g" "g \<le> 1" "0 \<le> c"
  shows "\<exists>v. olefresnel r g c = Some v"
proof -
  define r' where "r' = clamp r 0 0.99"
  have "0 \<le> r' \<and> r' \<le> 0.99" unfolding r'_def by (rule clamp_range) simp
  then have r0: "0 \<le> r'" and r1: "r' < 1" by simp_all
  define n where "n = (1 - r') / (1 + r') * g + (1 - g) * ((1 + sqrt r') / (1 - sqrt r'))"
  define k2 where "k2 = ((n + 1) * (n + 1) * r' - (n - 1) * (n - 1)) / (1 - r')"
  have lo: "(1 - r') / (1 + r') \<le> n"
    unfolding n_def by (rule ole_index_bound [OF r0 r1 assms(1,2)])
  have n0: "0 \<le> n" using lo n_bounds(1) [OF r0 r1] by linarith
  have N: "1 \<le> n * n + k2" unfolding k2_def by (rule ole_norm_bound [OF r0 r1 lo])
  note d = ratio_dens [OF N n0 assms(3)]
  have gn: "get_n r' g = Some n" unfolding n_def by (rule get_n_Some [OF r0 r1])
  have gk: "get_k2 r' n = Some k2" unfolding k2_def by (rule get_k2_Some [OF r1])
  show ?thesis
    unfolding olefresnel_def r'_def [symmetric] Let_def gn bind.bind_lunit gk
      fdiv_Some [OF d(1)] fdiv_Some [OF d(2)]
    by blast
qed

lemma getOleMetallicFresnel_Some:
  assumes "unit_color reflection" "0 \<le> c"
  shows "\<exists>v. getOleMetallicFresnel base reflection c = Some v"
proof -
  have u: "0 \<le> cr reflection" "cr reflection \<le> 1" "0 \<le> cg reflection" "cg reflection \<le> 1"
    "0 \<le> cb reflection" "cb reflection \<le> 1"
    using assms(1) by (simp_all add: unit_color_def)
  obtain x where x: "olefresnel (cr base) (cr reflection) c = Some x"
    using olefresnel_Some [OF u(1,2) assms(2)] by blast
  obtain y where y: "olefresnel (cg base) (cg reflection) c = Some y"
    using olefresnel_Some [OF u(3,4) assms(2)] by blast
  obtain z where z: "olefresnel (cb base) (cb reflection) c = Some z"
    using olefresnel_Some [OF u(5,6) assms(2)] by blast
  show ?thesis
    unfolding getOleMetallicFresnel_def x y z bind.bind_lunit by blast
qed

section \<open>The curves on the fitter's inputs\<close>

lemma positive_regular:
  assumes "positive n"
  shows "nonneg n" and "\<not> degenerate n k c"
  using assms by (auto simp: positive_def nonneg_def degenerate_def)

lemma getComplexFresnel_positive:
  assumes "positive n" "0 \<le> c"
  shows "\<exists>v. getComplexFresnel n k c = Some v \<and> unit_color v"
proof -
  obtain x y z where "getComplexFresnel n k c = Some (Color x y z)"
    "0 \<le> x" "x \<le> 1" "0 \<le> y" "y \<le> 1" "0 \<le> z" "z \<le> 1"
    using getComplexFresnel_unit [OF positive_regular(1) [OF assms(1)] assms(2)
        positive_regular(2) [OF assms(1)]] by blast
  then show ?thesis by (simp add: unit_color_def)
qed

section \<open>The accumulated sums\<close>

lemma findIOR_samples_value:
  assumes "\<forall>xs\<in>set l. getVRayMetallicFresnel V base reflection ior (real_of_int xs / 200) = Some (vray xs)
             \<and> getComplexFresnel n k (real_of_int xs / 200) = Some (cplx xs)"
  shows "findIOR_samples V n k base reflection ior l s =
           Some (s + (\<Sum>xs\<leftarrow>l. lengthSqr (color_sub (vray xs) (cplx xs))))"
  using assms
proof (induction l arbitrary: s)
  case Nil
  show ?case by simp
next
  case (Cons xs l)
  have h: "getVRayMetallicFresnel V base reflection ior (real_of_int xs / 200) = Some (vray xs)"
    "getComplexFresnel n k (real_of_int xs / 200) = Some (cplx xs)"
    using Cons.prems by simp_all
  have t: "\<forall>xs\<in>set l. getVRayMetallicFresnel V base reflection ior (real_of_int xs / 200) = Some (vray xs)
             \<and> getComplexFresnel n k (real_of_int xs / 200) = Some (cplx xs)"
    using Cons.prems by simp
  show ?case
    by (simp add: Let_def h Cons.IH [OF t] add.assoc)
qed

lemma sample_range:
  fixes xs N :: int
  assumes "xs \<in> set [1..N - 1]"
  shows "0 \<le> real_of_int xs / real_of_int N" and "real_of_int xs / real_of_int N \<le> 1"
proof -
  have "1 \<le> xs" "xs \<le> N - 1" using assms by simp_all
  then have "0 < N" "0 \<le> xs" "xs \<le> N" by linarith+
  then show "0 \<le> real_of_int xs / real_of_int N" "real_of_int xs / real_of_int N \<le> 1"
    by simp_all
qed

lemma findIOR_sum_defined:
  assumes "positive n"
  shows "\<exists>t. findIOR_sum V n k base reflection ior = Some t \<and> 0 \<le> t"
proof -
  define vray where "vray xs = color_add (color_scale base (1 - vrayFresnel V ior (real_of_int xs / 200)))
    (color_scale reflection (vrayFresnel V ior (real_of_int xs / 200)))" for xs :: int
  define cplx where "cplx xs = the (getComplexFresnel n k (real_of_int xs / 200))" for xs :: int
  have a: "\<forall>xs\<in>set [1..199]. getVRayMetallicFresnel V base reflection ior (real_of_int xs / 200) = Some (vray xs)
             \<and> getComplexFresnel n k (real_of_int xs / 200) = Some (cplx xs)"
  proof
    fix xs :: int
    assume "xs \<in> set [1..199]"
    then have "xs \<in> set [1..200 - 1]" by simp
    from sample_range [OF this]
    have r: "0 \<le> real_of_int xs / 200" "real_of_int xs / 200 \<le> 1" by simp_all
    have v: "getVRayMetallicFresnel V base reflection ior (real_of_int xs / 200) = Some (vray xs)"
      unfolding vray_def by (rule getVRayMetallicFresnel_Some [OF cos_sq_le_one [OF r]])
    obtain c where "getComplexFresnel n k (real_of_int xs / 200) = Some c"
      using getComplexFresnel_positive [OF assms r(1)] by blast
    then have "getComplexFresnel n k (real_of_int xs / 200) = Some (cplx xs)"
      by (simp add: cplx_def)
    with v show "getVRayMetallicFresnel V base reflection ior (real_of_int xs / 200) = Some (vray xs)
             \<and> getComplexFresnel n k (real_of_int xs / 200) = Some (cplx xs)" by simp
  qed
  have "0 \<le> (\<Sum>xs\<leftarrow>[1..199]. lengthSqr (color_sub (vray xs) (cplx xs)))"
    by (rule sum_list_nonneg) (auto simp: lengthSqr_nonneg)
  then show ?thesis
    unfolding findIOR_sum_def findIOR_samples_value [OF a] by simp
qed

section \<open>The sweep over the candidates\<close>

lemma keepBest_hit: "s ior < r \<Longrightarrow> keepBest s (b, r) ior = (ior, s ior)"
  by (simp add: keepBest_def)

lemma keepBest_miss: "\<not> s ior < r \<Longrightarrow> keepBest s (b, r) ior = (b, r)"
  by (simp add: keepBest_def)

lemma findIOR_loop_scanned:
  assumes "\<forall>p\<in>set (scanned ior). sumAt p = Some (s p)"
  shows "findIOR_loop sumAt ior bestIOR bestResult =
           Some (fst (foldl (keepBest s) (bestIOR, bestResult) (scanned ior)))"
  using assms
proof (induction sumAt ior bestIOR bestResult rule: findIOR_loop.induct)
  case (1 sumAt ior bestIOR bestResult)
  show ?case
  proof (cases "ior < 10")
    case False
    then show ?thesis
      by (simp add: findIOR_loop.simps [of sumAt ior] scanned.simps [of ior])
  next
    case True
    then have sc: "scanned ior = ior # scanned (ior + 0.001)"
      by (simp add: scanned.simps [of ior])
    have here: "sumAt ior = Some (s ior)" using "1.prems" sc by simp
    have rest: "\<forall>p\<in>set (scanned (ior + 0.001)). sumAt p = Some (s p)"
      using "1.prems" sc by simp
    show ?thesis
    proof (cases "s ior < bestResult")
      case less: True
      have "findIOR_loop sumAt ior bestIOR bestResult
              = findIOR_loop sumAt (ior + 0.001) ior (s ior)"
        using True here less by (simp add: findIOR_loop.simps [of sumAt ior])
      also have "\<dots> = Some (fst (foldl (keepBest s) (ior, s ior) (scanned (ior + 0.001))))"
        by (rule "1.IH"(1) [OF True here less rest])
      finally show ?thesis
        unfolding sc foldl_Cons keepBest_hit [of s ior bestResult bestIOR, OF less] .
    next
      case geq: False
      have "findIOR_loop sumAt ior bestIOR bestResult
              = findIOR_loop sumAt (ior + 0.001) bestIOR bestResult"
        using True here geq by (simp add: findIOR_loop.simps [of sumAt ior])
      also have "\<dots> = Some (fst (foldl (keepBest s) (bestIOR, bestResult) (scanned (ior + 0.001))))"
        by (rule "1.IH"(2) [OF True here geq rest])
      finally show ?thesis
        unfolding sc foldl_Cons keepBest_miss [of s ior bestResult bestIOR, OF geq] .
    qed
  qed
qed

section \<open>The result of the fit\<close>

lemma findIOR_defined:
  assumes "positive n"
  shows "\<exists>b. findIOR V n k = Some b"
proof -
  obtain reflection where refl: "getComplexFresnel n k 0 = Some reflection"
    using getComplexFresnel_positive [OF assms, of 0 k] by auto
  obtain base where base: "getComplexFresnel n k 1 = Some base"
    using getComplexFresnel_positive [OF assms, of 1 k] by auto
  define s where "s p = the (findIOR_sum V n k base reflection p)" for p
  have S: "findIOR_sum V n k base reflection p = Some (s p)" for p
    using findIOR_sum_defined [OF assms, of V k base reflection p] by (auto simp: s_def)
  then have all: "\<forall>p\<in>set (scanned 1.001). findIOR_sum V n k base reflection p = Some (s p)"
    by blast
  show ?thesis
    unfolding findIOR_def refl base bind.bind_lunit findIOR_loop_scanned [OF all] by blast
qed

section \<open>The errors of the two approximations\<close>

lemma renderErrors_samples_value:
  assumes "N \<noteq> 0"
    and "\<forall>xs\<in>set l.
            getVRayMetallicFresnel V base reflection ior (real_of_int xs / real_of_int N) = Some (vray xs)
          \<and> getOleMetallicFresnel base reflection (real_of_int xs / real_of_int N) = Some (ole xs)
          \<and> getComplexFresnel n k (real_of_int xs / real_of_int N) = Some (cplx xs)"
  shows "renderErrors_samples V n k base reflection ior N l (a, b) =
           Some (a + (\<Sum>xs\<leftarrow>l. lengthSqr (color_sub (vray xs) (cplx xs))),
                 b + (\<Sum>xs\<leftarrow>l. lengthSqr (color_sub (ole xs) (cplx xs))))"
  using assms(2)
proof (induction l arbitrary: a b)
  case Nil
  show ?case by simp
next
  case (Cons xs l)
  have N: "real_of_int N \<noteq> 0" using assms(1) by simp
  have h: "getVRayMetallicFresnel V base reflection ior (real_of_int xs / real_of_int N) = Some (vray xs)"
    "getOleMetallicFresnel base reflection (real_of_int xs / real_of_int N) = Some (ole xs)"
    "getComplexFresnel n k (real_of_int xs / real_of_int N) = Some (cplx xs)"
    using Cons.prems by simp_all
  have t: "\<forall>xs\<in>set l.
            getVRayMetallicFresnel V base reflection ior (real_of_int xs / real_of_int N) = Some (vray xs)
          \<and> getOleMetallicFresnel base reflection (real_of_int xs / real_of_int N) = Some (ole xs)
          \<and> getComplexFresnel n k (real_of_int xs / real_of_int N) = Some (cplx xs)"
    using Cons.prems by simp
  show ?case
    by (simp add: Let_def fdiv_Some [OF N] h Cons.IH [OF t] add.assoc)
qed

lemma sum_list_upto: "(\<Sum>xs\<leftarrow>[i..j]. f xs) = (\<Sum>xs = i..j. f xs)" for f :: "int \<Rightarrow> real"
  by (simp add: sum_list_distinct_conv_sum_set)

lemma renderErrors_value:
  assumes "positive n" "unit_color reflection" "0 < N"
  shows "\<exists>vray ole cplx.
           (\<forall>xs\<in>{1..N - 1}.
                getVRayMetallicFresnel V base reflection ior (real_of_int xs / real_of_int N) = Some (vray xs)
              \<and> getOleMetallicFresnel base reflection (real_of_int xs / real_of_int N) = Some (ole xs)
              \<and> getComplexFresnel n k (real_of_int xs / real_of_int N) = Some (cplx xs))
         \<and> renderErrors V n k base reflection ior N =
             Some (sqrt ((\<Sum>xs = 1..N - 1. lengthSqr (color_sub (vray xs) (cplx xs))) / real_of_int N),
                   sqrt ((\<Sum>xs = 1..N - 1. lengthSqr (color_sub (ole xs) (cplx xs))) / real_of_int N))"
proof -
  define vray where "vray xs =
    the (getVRayMetallicFresnel V base reflection ior (real_of_int xs / real_of_int N))" for xs :: int
  define ole where "ole xs =
    the (getOleMetallicFresnel base reflection (real_of_int xs / real_of_int N))" for xs :: int
  define cplx where "cplx xs = the (getComplexFresnel n k (real_of_int xs / real_of_int N))" for xs :: int
  have a: "getVRayMetallicFresnel V base reflection ior (real_of_int xs / real_of_int N) = Some (vray xs)
         \<and> getOleMetallicFresnel base reflection (real_of_int xs / real_of_int N) = Some (ole xs)
         \<and> getComplexFresnel n k (real_of_int xs / real_of_int N) = Some (cplx xs)"
    if "xs \<in> set [1..N - 1]" for xs
  proof -
    note r = sample_range [OF that]
    have "getVRayMetallicFresnel V base reflection ior (real_of_int xs / real_of_int N) = Some (vray xs)"
      unfolding vray_def getVRayMetallicFresnel_Some [OF cos_sq_le_one [OF r]] by simp
    moreover obtain c where "getComplexFresnel n k (real_of_int xs / real_of_int N) = Some c"
      using getComplexFresnel_positive [OF assms(1) r(1)] by blast
    moreover obtain d where "getOleMetallicFresnel base reflection (real_of_int xs / real_of_int N) = Some d"
      using getOleMetallicFresnel_Some [OF assms(2) r(1)] by blast
    ultimately show ?thesis by (simp add: ole_def cplx_def)
  qed
  then have l: "\<forall>xs\<in>set [1..N - 1].
           getVRayMetallicFresnel V base reflection ior (real_of_int xs / real_of_int N) = Some (vray xs)
         \<and> getOleMetallicFresnel base reflection (real_of_int xs / real_of_int N) = Some (ole xs)
         \<and> getComplexFresnel n k (real_of_int xs / real_of_int N) = Some (cplx xs)"
    by blast
  have N0: "N \<noteq> 0" and N1: "real_of_int N \<noteq> 0" and N2: "0 \<le> real_of_int N" using assms(3) by simp_all
  define sv where "sv = (\<Sum>xs = 1..N - 1. lengthSqr (color_sub (vray xs) (cplx xs)))"
  define so where "so = (\<Sum>xs = 1..N - 1. lengthSqr (color_sub (ole xs) (cplx xs)))"
  have "0 \<le> sv" "0 \<le> so"
    unfolding sv_def so_def by (intro sum_nonneg lengthSqr_nonneg)+
  then have p: "0 \<le> sv / real_of_int N" "0 \<le> so / real_of_int N"
    using N2 by simp_all
  have loop: "renderErrors_samples V n k base reflection ior N [1..N - 1] (0, 0) = Some (sv, so)"
    unfolding renderErrors_samples_value [OF N0 l] sum_list_upto sv_def so_def by simp
  have "renderErrors V n k base reflection ior N =
      Some (sqrt (sv / real_of_int N), sqrt (so / real_of_int N))"
    unfolding renderErrors_def loop bind.bind_lunit Let_def prod.case
      fdiv_Some [OF N1] fsqrt_Some [OF p(1)] fsqrt_Some [OF p(2)] ..
  with l show ?thesis unfolding sv_def so_def by auto
qed

section \<open>The loop over the presets\<close>

lemma renderPreset_row:
  assumes "presetIdx < length (presetTable s)"
    and "positive (pn (presetTable s ! presetIdx))"
    and "0 < bwidth s"
  shows "\<exists>line. rowFor V (bwidth s * 2) (presetTable s ! presetIdx) line
           \<and> renderPreset V fp s presetIdx =
               Some (s\<lparr>csv := (if fp then csv s @ [line] else csv s), posted := posted s + 1\<rparr>)"
proof -
  let ?p = "presetTable s ! presetIdx"
  obtain reflection where refl: "getComplexFresnel (pn ?p) (pk ?p) 0 = Some reflection"
      "unit_color reflection"
    using getComplexFresnel_positive [OF assms(2), of 0 "pk ?p"] by auto
  obtain base where base: "getComplexFresnel (pn ?p) (pk ?p) 1 = Some base"
    using getComplexFresnel_positive [OF assms(2), of 1 "pk ?p"] by auto
  obtain ior where ior: "findIOR V (pn ?p) (pk ?p) = Some ior"
    using findIOR_defined [OF assms(2)] by blast
  have N: "0 < bwidth s * 2" using assms(3) by simp
  obtain ve oe where errs:
    "renderErrors V (pn ?p) (pk ?p) base reflection ior (bwidth s * 2) = Some (ve, oe)"
    using renderErrors_value [OF assms(2) refl(2) N, of V base ior "pk ?p"] by blast
  define line where "line = Row (pname ?p) (floor255 base) (floor255 reflection) ior
    (toRGB32 V (encodeToSRGB V base)) ve oe"
  have "rowFor V (bwidth s * 2) ?p line"
    unfolding rowFor_def using refl(1) base ior errs line_def by blast
  moreover have "renderPreset V fp s presetIdx =
      Some (s\<lparr>csv := (if fp then csv s @ [line] else csv s), posted := posted s + 1\<rparr>)"
    unfolding renderPreset_def line_def using assms(1)
    by (simp add: Let_def refl(1) base ior errs)
  ultimately show ?thesis by blast
qed

lemma renderCycle_loop_rows:
  assumes "\<forall>i\<in>set l. i < length (presetTable s) \<and> positive (pn (presetTable s ! i))"
    and "0 < bwidth s"
  shows "\<exists>rows. list_all2 (rowFor V (bwidth s * 2)) (map (\<lambda>i. presetTable s ! i) l) rows
           \<and> renderCycle_loop V fp l s =
               Some (s\<lparr>csv := (if fp then csv s @ rows else csv s),
                       posted := posted s + length l\<rparr>)"
  using assms
proof (induction l arbitrary: s)
  case Nil
  show ?case by simp
next
  case (Cons i l)
  have i: "i < length (presetTable s)" "positive (pn (presetTable s ! i))"
    using Cons.prems(1) by simp_all
  obtain line where line: "rowFor V (bwidth s * 2) (presetTable s ! i) line"
    "renderPreset V fp s i =
       Some (s\<lparr>csv := (if fp then csv s @ [line] else csv s), posted := posted s + 1\<rparr>)"
    using renderPreset_row [OF i Cons.prems(2)] by blast
  let ?s = "s\<lparr>csv := (if fp then csv s @ [line] else csv s), posted := posted s + 1\<rparr>"
  have t: "\<forall>i\<in>set l. i < length (presetTable ?s) \<and> positive (pn (presetTable ?s ! i))"
    using Cons.prems(1) by simp
  have b: "0 < bwidth ?s" using Cons.prems(2) by simp
  obtain rows where rows:
    "list_all2 (rowFor V (bwidth ?s * 2)) (map (\<lambda>i. presetTable ?s ! i) l) rows"
    "renderCycle_loop V fp l ?s =
       Some (?s\<lparr>csv := (if fp then csv ?s @ rows else csv ?s), posted := posted ?s + length l\<rparr>)"
    using Cons.IH [OF t b] by blast
  have "list_all2 (rowFor V (bwidth s * 2)) (map (\<lambda>i. presetTable s ! i) (i # l)) (line # rows)"
    using line(1) rows(1) by simp
  moreover have "renderCycle_loop V fp (i # l) s =
      Some (s\<lparr>csv := (if fp then csv s @ (line # rows) else csv s),
              posted := posted s + length (i # l)\<rparr>)"
    using rows(2) line(2) by (cases fp) simp_all
  ultimately show ?case by blast
qed

lemma metalPresets_length: "length metalPresets = 15"
  by (simp add: metalPresets_def)

lemma metalPresets_positive: "\<forall>p\<in>set metalPresets. positive (pn p)"
  by (simp add: metalPresets_def positive_def)

lemma renderCycle_rows:
  "\<exists>rows. list_all2 (rowFor V 1600) metalPresets rows
     \<and> renderCycle V fp initialState =
         Some (initialState\<lparr>csv := (if fp then Header # rows else []), posted := 15\<rparr>)"
proof -
  let ?s = "if fp then initialState\<lparr>csv := [Header]\<rparr> else initialState"
  have tb: "presetTable ?s = metalPresets" and bw: "bwidth ?s = 800"
    by (simp_all add: initialState_def)
  have a: "\<forall>i\<in>set [0..<metalPreset_last]. i < length (presetTable ?s) \<and> positive (pn (presetTable ?s ! i))"
    unfolding tb using metalPresets_positive
    by (simp add: metalPreset_last_def metalPresets_length)
  have b: "0 < bwidth ?s" unfolding bw by simp
  obtain rows where rows:
    "list_all2 (rowFor V (bwidth ?s * 2)) (map (\<lambda>i. presetTable ?s ! i) [0..<metalPreset_last]) rows"
    "renderCycle_loop V fp [0..<metalPreset_last] ?s =
       Some (?s\<lparr>csv := (if fp then csv ?s @ rows else csv ?s),
               posted := posted ?s + length [0..<metalPreset_last]\<rparr>)"
    using renderCycle_loop_rows [OF a b] by blast
  have m: "map (\<lambda>i. metalPresets ! i) [0..<metalPreset_last] = metalPresets"
    unfolding metalPreset_last_def metalPresets_length [symmetric] by (rule map_nth)
  have "list_all2 (rowFor V 1600) metalPresets rows"
    using rows(1) unfolding tb bw m by simp
  moreover have "renderCycle V fp initialState =
      Some (initialState\<lparr>csv := (if fp then Header # rows else []), posted := 15\<rparr>)"
    unfolding renderCycle_def rows(2)
    by (simp add: initialState_def metalPreset_last_def)
  ultimately show ?thesis by blast
qed

lemma rowFor_name: "rowFor V N p line \<Longrightarrow> line \<noteq> Header \<and> row_name line = pname p"
  by (auto simp: rowFor_def)

lemma rows_names:
  assumes "list_all2 (rowFor V N) ps rows"
  shows "map row_name rows = map pname ps \<and> Header \<notin> set rows"
  using assms by (induction rule: list_all2_induct) (auto dest: rowFor_name)

section \<open>The errors reported by the render cycle\<close>

lemma initial_width: "bwidth initialState * 2 = 1600"
  by (simp add: initialState_def)

text \<open>
  C6, as amended. For every preset, \<^verbatim>\<open>oleError\<close> is the square root of the sum, over the
  1599 cosines \<open>xs / 1600\<close> with \<open>xs = 1, ..., 1599\<close>, of the squared differences between the
  artist-friendly formula and the complex Fresnel formula, divided by 1600; and
  \<^verbatim>\<open>vrayError\<close> is the square root of the same sum for the material's formula at the
  fitted IOR, divided by 1600. The render cycle computes both sums itself over these 1599
  cosines.
\<close>

theorem renderErrors_root_mean_square:
  assumes "p \<in> set metalPresets"
  shows "\<exists>base reflection ior vray ole cplx.
           getComplexFresnel (pn p) (pk p) 1 = Some base
         \<and> getComplexFresnel (pn p) (pk p) 0 = Some reflection
         \<and> findIOR V (pn p) (pk p) = Some ior
         \<and> (\<forall>xs\<in>{1..1599}.
                getVRayMetallicFresnel V base reflection ior (real_of_int xs / 1600) = Some (vray xs)
              \<and> getOleMetallicFresnel base reflection (real_of_int xs / 1600) = Some (ole xs)
              \<and> getComplexFresnel (pn p) (pk p) (real_of_int xs / 1600) = Some (cplx xs))
         \<and> renderErrors V (pn p) (pk p) base reflection ior (bwidth initialState * 2) =
             Some (sqrt ((\<Sum>xs = 1..1599. lengthSqr (color_sub (vray xs) (cplx xs))) / 1600),
                   sqrt ((\<Sum>xs = 1..1599. lengthSqr (color_sub (ole xs) (cplx xs))) / 1600))"
proof -
  have pos: "positive (pn p)" using metalPresets_positive assms by blast
  obtain reflection where refl: "getComplexFresnel (pn p) (pk p) 0 = Some reflection"
      "unit_color reflection"
    using getComplexFresnel_positive [OF pos, of 0 "pk p"] by auto
  obtain base where base: "getComplexFresnel (pn p) (pk p) 1 = Some base"
    using getComplexFresnel_positive [OF pos, of 1 "pk p"] by auto
  obtain ior where ior: "findIOR V (pn p) (pk p) = Some ior"
    using findIOR_defined [OF pos] by blast
  from renderErrors_value [OF pos refl(2), of 1600 V base ior "pk p"]
  show ?thesis unfolding initial_width using refl(1) base ior by auto
qed

theorem renderErrors_root_mean_square_witness:
  "metalPresets ! 1 \<in> set metalPresets
   \<and> (\<exists>base reflection ior vrayError oleError.
         getComplexFresnel (pn (metalPresets ! 1)) (pk (metalPresets ! 1)) 1 = Some base
       \<and> getComplexFresnel (pn (metalPresets ! 1)) (pk (metalPresets ! 1)) 0 = Some reflection
       \<and> findIOR exampleLibrary (pn (metalPresets ! 1)) (pk (metalPresets ! 1)) = Some ior
       \<and> renderErrors exampleLibrary (pn (metalPresets ! 1)) (pk (metalPresets ! 1))
           base reflection ior (bwidth initialState * 2) = Some (vrayError, oleError))"
proof -
  have p: "metalPresets ! 1 \<in> set metalPresets"
    by (rule nth_mem) (simp add: metalPresets_length)
  from renderErrors_root_mean_square [OF p, of exampleLibrary]
  show ?thesis using p by blast
qed

section \<open>The errors of the render cycle for Gold\<close>

lemma renderErrors_sums:
  assumes "positive n" "unit_color reflection" "0 < N"
  shows "\<exists>vray ole cplx.
           (\<forall>xs\<in>{1..N - 1}.
                getVRayMetallicFresnel V base reflection ior (real_of_int xs / real_of_int N) = Some (vray xs)
              \<and> getOleMetallicFresnel base reflection (real_of_int xs / real_of_int N) = Some (ole xs)
              \<and> getComplexFresnel n k (real_of_int xs / real_of_int N) = Some (cplx xs))
         \<and> renderErrors_samples V n k base reflection ior N [1..N - 1] (0, 0) =
             Some (\<Sum>xs = 1..N - 1. lengthSqr (color_sub (vray xs) (cplx xs)),
                   \<Sum>xs = 1..N - 1. lengthSqr (color_sub (ole xs) (cplx xs)))
         \<and> renderErrors V n k base reflection ior N =
             Some (sqrt ((\<Sum>xs = 1..N - 1. lengthSqr (color_sub (vray xs) (cplx xs))) / real_of_int N),
                   sqrt ((\<Sum>xs = 1..N - 1. lengthSqr (color_sub (ole xs) (cplx xs))) / real_of_int N))"
proof -
  from renderErrors_value [OF assms, of V base ior k] obtain vray ole cplx where
    v: "\<forall>xs\<in>{1..N - 1}.
                getVRayMetallicFresnel V base reflection ior (real_of_int xs / real_of_int N) = Some (vray xs)
              \<and> getOleMetallicFresnel base reflection (real_of_int xs / real_of_int N) = Some (ole xs)
              \<and> getComplexFresnel n k (real_of_int xs / real_of_int N) = Some (cplx xs)"
    and e: "renderErrors V n k base reflection ior N =
             Some (sqrt ((\<Sum>xs = 1..N - 1. lengthSqr (color_sub (vray xs) (cplx xs))) / real_of_int N),
                   sqrt ((\<Sum>xs = 1..N - 1. lengthSqr (color_sub (ole xs) (cplx xs))) / real_of_int N))"
    by blast
  have N0: "N \<noteq> 0" using assms(3) by simp
  have l: "\<forall>xs\<in>set [1..N - 1].
                getVRayMetallicFresnel V base reflection ior (real_of_int xs / real_of_int N) = Some (vray xs)
              \<and> getOleMetallicFresnel base reflection (real_of_int xs / real_of_int N) = Some (ole xs)
              \<and> getComplexFresnel n k (real_of_int xs / real_of_int N) = Some (cplx xs)"
    using v by simp
  have "renderErrors_samples V n k base reflection ior N [1..N - 1] (0, 0) =
      Some (\<Sum>xs = 1..N - 1. lengthSqr (color_sub (vray xs) (cplx xs)),
            \<Sum>xs = 1..N - 1. lengthSqr (color_sub (ole xs) (cplx xs)))"
    unfolding renderErrors_samples_value [OF N0 l] sum_list_upto by simp
  with v e show ?thesis by blast
qed

lemma gold: "metalPresets ! 1 =
    MetalPreset ''Gold'' (Color 0.15557 0.42415 1.3831) (Color 3.6024 2.4721 1.9155)"
  by (simp add: metalPresets_def)

lemma gold_positive: "positive (Color 0.15557 0.42415 1.3831)"
  by (simp add: positive_def)

lemma gold_reflection:
  "getComplexFresnel (Color 0.15557 0.42415 1.3831) (Color 3.6024 2.4721 1.9155) 0 = Some (Color 1 1 1)"
  by (simp add: getComplexFresnel_def complexFresnel_def fdiv_def clamp_def)

lemma gold_base:
  "getComplexFresnel (Color 0.15557 0.42415 1.3831) (Color 3.6024 2.4721 1.9155) 1
     = Some (Color (136903477849 / 143126277849) (2577152653 / 3255792653) (190795293 / 467415293))"
  by (simp add: getComplexFresnel_def complexFresnel_def fdiv_def clamp_def)

lemma gold_half:
  "getComplexFresnel (Color 0.15557 0.42415 1.3831) (Color 3.6024 2.4721 1.9155) (1 / 2)
     = Some (Color (22519819960712890866801 / 23628287307981337366801)
          (10655500060996858409 / 13359819937336758409) (1488641768433529 / 3365872569508529))"
  by (simp add: getComplexFresnel_def complexFresnel_def fdiv_def clamp_def)

lemma gold_grazing:
  "getComplexFresnel (Color 0.15557 0.42415 1.3831) (Color 3.6024 2.4721 1.9155) (1 / 1600)
     = Some (Color (493095980314453333482587327 / 493199246581031016089566827)
          (168975368797963547259701 / 169079212659971499645601)
          (27883347335893800500373 / 27940219899937526292973))"
  by (simp add: getComplexFresnel_def complexFresnel_def fdiv_def clamp_def)

lemma gold_ole_half:
  "getOleMetallicFresnel (Color (136903477849 / 143126277849) (2577152653 / 3255792653) (190795293 / 467415293))
      (Color 1 1 1) (1 / 2)
     = Some (Color (137525757849 / 142503997849) (2645016653 / 3187928653) (218457293 / 439753293))"
  by (simp add: getOleMetallicFresnel_def olefresnel_def get_n_def get_k2_def n_min_def n_max_def
      fdiv_def fsqrt_def clamp_def Let_def)

lemma white_unit: "unit_color (Color 1 1 1)"
  by (simp add: unit_color_def)

lemma example_vray:
  assumes "0 \<le> cs" "cs \<le> 1"
  shows "getVRayMetallicFresnel exampleLibrary (Color r g b) (Color 1 1 1) ior cs =
           Some (Color ((r + 1) / 2) ((g + 1) / 2) ((b + 1) / 2))"
  unfolding getVRayMetallicFresnel_Some [OF cos_sq_le_one [OF assms]]
  by (simp add: vrayFresnel_def exampleLibrary_def color_add_def color_scale_def field_simps)

lemma grazing_vray:
  assumes "0 \<le> cs" "cs \<le> 1"
  shows "getVRayMetallicFresnel grazingLibrary (Color r g b) (Color 1 1 1) ior cs =
           (if cs = 1 / 1600 then Some (Color r g b)
            else Some (Color ((r + 1) / 2) ((g + 1) / 2) ((b + 1) / 2)))"
  unfolding getVRayMetallicFresnel_Some [OF cos_sq_le_one [OF assms]]
  by (simp add: vrayFresnel_def grazingLibrary_def color_add_def color_scale_def field_simps)

lemma fitter_sample_off_grazing: "real_of_int xs / 200 \<noteq> 1 / 1600"
proof
  assume "real_of_int xs / 200 = 1 / 1600"
  then have "real_of_int (8 * xs) = real_of_int 1" by simp
  then have "8 * xs = 1" by (simp only: of_int_eq_iff)
  then show False by presburger
qed

lemma findIOR_samples_cong:
  assumes "\<forall>xs\<in>set l. getVRayMetallicFresnel V base reflection ior (real_of_int xs / 200) =
      getVRayMetallicFresnel W base reflection ior (real_of_int xs / 200)"
  shows "findIOR_samples V n k base reflection ior l s = findIOR_samples W n k base reflection ior l s"
  using assms by (induction l arbitrary: s) simp_all

lemma grazing_fit:
  "findIOR_sum grazingLibrary n k (Color r g b) (Color 1 1 1) ior =
   findIOR_sum exampleLibrary n k (Color r g b) (Color 1 1 1) ior"
  unfolding findIOR_sum_def
proof (rule findIOR_samples_cong, rule ballI)
  fix xs :: int
  assume "xs \<in> set [1..199]"
  then have "xs \<in> set [1..200 - 1]" by simp
  from sample_range [OF this]
  have r: "0 \<le> real_of_int xs / 200" "real_of_int xs / 200 \<le> 1" by simp_all
  show "getVRayMetallicFresnel grazingLibrary (Color r g b) (Color 1 1 1) ior (real_of_int xs / 200) =
      getVRayMetallicFresnel exampleLibrary (Color r g b) (Color 1 1 1) ior (real_of_int xs / 200)"
    unfolding grazing_vray [OF r] example_vray [OF r] using fitter_sample_off_grazing by simp
qed

lemma sum_over_term:
  fixes f :: "int \<Rightarrow> real"
  assumes "i \<in> {1..m}" "0 < f i" "\<And>xs. 0 \<le> f xs"
  shows "0 < (\<Sum>xs = 1..m. f xs)"
proof -
  have "f i \<le> (\<Sum>xs = 1..m. f xs)"
    by (rule member_le_sum [OF assms(1)]) (simp_all add: assms(3))
  then show ?thesis using assms(2) by linarith
qed

lemma root_mean_differs:
  fixes s :: real
  assumes "0 < s"
  shows "sqrt (s / 1600) \<noteq> sqrt (s / 1599)"
  using assms by simp

text \<open>
  The two sums of the render cycle for Gold, for a library whose blend at the cosine \<open>cs\<close> is
  \<open>vr cs\<close>.
\<close>

lemma gold_sums:
  fixes vr :: "real \<Rightarrow> Color"
  assumes "\<And>cs. 0 \<le> cs \<Longrightarrow> cs \<le> 1 \<Longrightarrow>
      getVRayMetallicFresnel V B (Color 1 1 1) ior cs = Some (vr cs)"
    and n_def: "n = Color 0.15557 0.42415 1.3831"
    and cplx_def: "cplx = (\<lambda>xs. the (getComplexFresnel n k (real_of_int xs / 1600)))"
    and ole_def: "ole = (\<lambda>xs. the (getOleMetallicFresnel B (Color 1 1 1) (real_of_int xs / 1600)))"
  shows "renderErrors_samples V n k B (Color 1 1 1) ior 1600 [1..1599] (0, 0) =
           Some (\<Sum>xs = 1..1599. lengthSqr (color_sub (vr (real_of_int xs / 1600)) (cplx xs)),
                 \<Sum>xs = 1..1599. lengthSqr (color_sub (ole xs) (cplx xs)))"
    and "renderErrors V n k B (Color 1 1 1) ior 1600 =
           Some (sqrt ((\<Sum>xs = 1..1599. lengthSqr (color_sub (vr (real_of_int xs / 1600)) (cplx xs))) / 1600),
                 sqrt ((\<Sum>xs = 1..1599. lengthSqr (color_sub (ole xs) (cplx xs))) / 1600))"
proof -
  have pos: "positive n" unfolding n_def by (rule gold_positive)
  from renderErrors_sums [OF pos white_unit, of 1600 V B ior k] obtain v' o' c' where
    v: "\<forall>xs\<in>{1..1600 - 1}.
           getVRayMetallicFresnel V B (Color 1 1 1) ior (real_of_int xs / real_of_int 1600) = Some (v' xs)
         \<and> getOleMetallicFresnel B (Color 1 1 1) (real_of_int xs / real_of_int 1600) = Some (o' xs)
         \<and> getComplexFresnel n k (real_of_int xs / real_of_int 1600) = Some (c' xs)"
    and s: "renderErrors_samples V n k B (Color 1 1 1) ior 1600 [1..1600 - 1] (0, 0) =
             Some (\<Sum>xs = 1..1600 - 1. lengthSqr (color_sub (v' xs) (c' xs)),
                   \<Sum>xs = 1..1600 - 1. lengthSqr (color_sub (o' xs) (c' xs)))"
    and e: "renderErrors V n k B (Color 1 1 1) ior 1600 =
             Some (sqrt ((\<Sum>xs = 1..1600 - 1. lengthSqr (color_sub (v' xs) (c' xs))) / real_of_int 1600),
                   sqrt ((\<Sum>xs = 1..1600 - 1. lengthSqr (color_sub (o' xs) (c' xs))) / real_of_int 1600))"
    by auto
  have same: "v' xs = vr (real_of_int xs / 1600) \<and> o' xs = ole xs \<and> c' xs = cplx xs"
    if "xs \<in> {1..1599}" for xs :: int
  proof -
    from that have "xs \<in> set [1..1600 - 1]" by simp
    from sample_range [OF this]
    have r: "0 \<le> real_of_int xs / 1600" "real_of_int xs / 1600 \<le> 1" by simp_all
    have m: "xs \<in> {1..1600 - 1}" using that by simp
    show ?thesis
      using v [rule_format, OF m] assms(1) [OF r] unfolding ole_def cplx_def by simp
  qed
  have sv: "(\<Sum>xs = 1..1600 - 1. lengthSqr (color_sub (v' xs) (c' xs))) =
      (\<Sum>xs = 1..1599. lengthSqr (color_sub (vr (real_of_int xs / 1600)) (cplx xs)))"
    by (rule sum.cong) (simp_all add: same)
  have so: "(\<Sum>xs = 1..1600 - 1. lengthSqr (color_sub (o' xs) (c' xs))) =
      (\<Sum>xs = 1..1599. lengthSqr (color_sub (ole xs) (cplx xs)))"
    by (rule sum.cong) (simp_all add: same)
  show "renderErrors_samples V n k B (Color 1 1 1) ior 1600 [1..1599] (0, 0) =
           Some (\<Sum>xs = 1..1599. lengthSqr (color_sub (vr (real_of_int xs / 1600)) (cplx xs)),
                 \<Sum>xs = 1..1599. lengthSqr (color_sub (ole xs) (cplx xs)))"
    using s unfolding sv so by simp
  show "renderErrors V n k B (Color 1 1 1) ior 1600 =
           Some (sqrt ((\<Sum>xs = 1..1599. lengthSqr (color_sub (vr (real_of_int xs / 1600)) (cplx xs))) / 1600),
                 sqrt ((\<Sum>xs = 1..1599. lengthSqr (color_sub (ole xs) (cplx xs))) / 1600))"
    using e unfolding sv so by simp
qed

lemma gold_split:
  fixes f :: "int \<Rightarrow> real"
  shows "(\<Sum>xs = 1..1599. f xs) = f 1 + (\<Sum>xs = 2..1599. f xs)"
proof -
  have "{1..1599::int} = insert 1 {2..1599}" by auto
  then show ?thesis by simp
qed

lemma grazing_sample: "xs \<in> {2..1599} \<Longrightarrow> real_of_int xs / 1600 \<noteq> 1 / 1600"
  by simp


text \<open>
  For Gold, the second preset, with the library whose Fresnel coefficient is \<open>1 / 2\<close>:
  each of the two reported errors differs from the root of its sum divided by 1599, the
  number of samples summed. And the library that differs only towards the cosine
  \<open>1 / 1600\<close>, which the fit never samples, gives the same sums to the fit for every
  candidate and another reported error: the reported error is not a function of the sums of
  the fit.
\<close>

theorem renderErrors_not_sample_mean:
  "presetErrors exampleLibrary (bwidth initialState * 2) (metalPresets ! 1) \<noteq> None
   \<and> map_option fst (presetErrors exampleLibrary (bwidth initialState * 2) (metalPresets ! 1))
      \<noteq> map_option (spec_rmse 1599)
          (map_option fst (presetSums exampleLibrary (bwidth initialState * 2) (metalPresets ! 1)))
   \<and> map_option snd (presetErrors exampleLibrary (bwidth initialState * 2) (metalPresets ! 1))
      \<noteq> map_option (spec_rmse 1599)
          (map_option snd (presetSums exampleLibrary (bwidth initialState * 2) (metalPresets ! 1)))
   \<and> fitterSums grazingLibrary (metalPresets ! 1) = fitterSums exampleLibrary (metalPresets ! 1)
   \<and> map_option fst (presetErrors grazingLibrary (bwidth initialState * 2) (metalPresets ! 1))
      \<noteq> map_option fst (presetErrors exampleLibrary (bwidth initialState * 2) (metalPresets ! 1))"
proof -
  define n where "n = Color 0.15557 0.42415 1.3831"
  define k where "k = Color 3.6024 2.4721 1.9155"
  define B where
    "B = Color (136903477849 / 143126277849) (2577152653 / 3255792653) (190795293 / 467415293)"
  define H where
    "H = Color (140014877849 / 143126277849) (2916472653 / 3255792653) (329105293 / 467415293)"
  define cplx where "cplx = (\<lambda>xs. the (getComplexFresnel n k (real_of_int xs / 1600)))"
  define ole where "ole = (\<lambda>xs. the (getOleMetallicFresnel B (Color 1 1 1) (real_of_int xs / 1600)))"
  define so where "so = (\<Sum>xs = 1..1599. lengthSqr (color_sub (ole xs) (cplx xs)))"
  define T1 where "T1 = (\<lambda>xs::int. lengthSqr (color_sub H (cplx xs)))"
  define T2 where "T2 = (\<lambda>xs::int.
    lengthSqr (color_sub (if real_of_int xs / 1600 = 1 / 1600 then B else H) (cplx xs)))"
  have p: "metalPresets ! 1 = MetalPreset ''Gold'' n k" unfolding n_def k_def by (rule gold)
  have refl: "getComplexFresnel n k 0 = Some (Color 1 1 1)"
    unfolding n_def k_def by (rule gold_reflection)
  have base: "getComplexFresnel n k 1 = Some B" unfolding n_def k_def B_def by (rule gold_base)
  have pos: "positive n" unfolding n_def by (rule gold_positive)
  obtain i1 where i1: "findIOR exampleLibrary n k = Some i1" using findIOR_defined [OF pos] by blast
  obtain i2 where i2: "findIOR grazingLibrary n k = Some i2" using findIOR_defined [OF pos] by blast
  have v1: "getVRayMetallicFresnel exampleLibrary B (Color 1 1 1) ior cs = Some H"
    if "0 \<le> cs" "cs \<le> 1" for ior cs
    unfolding B_def H_def example_vray [OF that] by simp
  have v2: "getVRayMetallicFresnel grazingLibrary B (Color 1 1 1) ior cs =
      Some (if cs = 1 / 1600 then B else H)"
    if "0 \<le> cs" "cs \<le> 1" for ior cs
    unfolding B_def H_def grazing_vray [OF that] by simp
  note s1 = gold_sums [of exampleLibrary B i1 "\<lambda>cs. H" n cplx k ole, OF v1 n_def cplx_def ole_def]
  note s2 = gold_sums [of grazingLibrary B i2 "\<lambda>cs. if cs = 1 / 1600 then B else H" n cplx k ole,
      OF v2 n_def cplx_def ole_def]
  have sums1: "presetSums exampleLibrary 1600 (metalPresets ! 1) = Some (sum T1 {1..1599}, so)"
    unfolding presetSums_def p MetalPreset.sel refl base i1 bind.bind_lunit T1_def so_def
    using s1(1) by simp
  have errs1: "presetErrors exampleLibrary 1600 (metalPresets ! 1) =
      Some (sqrt (sum T1 {1..1599} / 1600), sqrt (so / 1600))"
    unfolding presetErrors_def p MetalPreset.sel refl base i1 bind.bind_lunit T1_def so_def
    using s1(2) by simp
  have errs2: "presetErrors grazingLibrary 1600 (metalPresets ! 1) =
      Some (sqrt (sum T2 {1..1599} / 1600), sqrt (so / 1600))"
    unfolding presetErrors_def p MetalPreset.sel refl base i2 bind.bind_lunit T2_def so_def
    using s2(2) by simp
  have c800: "cplx 800 = Color (22519819960712890866801 / 23628287307981337366801)
      (10655500060996858409 / 13359819937336758409) (1488641768433529 / 3365872569508529)"
    unfolding cplx_def n_def k_def using gold_half by simp
  have o800: "ole 800 = Color (137525757849 / 142503997849) (2645016653 / 3187928653)
      (218457293 / 439753293)"
    unfolding ole_def B_def using gold_ole_half by simp
  have c1: "cplx 1 = Color (493095980314453333482587327 / 493199246581031016089566827)
      (168975368797963547259701 / 169079212659971499645601)
      (27883347335893800500373 / 27940219899937526292973)"
    unfolding cplx_def n_def k_def using gold_grazing by simp
  have t: "0 < T1 800" unfolding T1_def c800 H_def by (simp add: lengthSqr_def color_sub_def)
  have sv: "0 < sum T1 {1..1599}"
    by (rule sum_over_term [where f = T1 and i = 800]) (simp_all add: t, simp add: T1_def lengthSqr_nonneg)
  have u: "0 < lengthSqr (color_sub (ole 800) (cplx 800))"
    unfolding c800 o800 by (simp add: lengthSqr_def color_sub_def)
  have so: "0 < so"
    unfolding so_def
    by (rule sum_over_term [where i = 800 and f = "\<lambda>xs. lengthSqr (color_sub (ole xs) (cplx xs))"])
      (simp_all add: u lengthSqr_nonneg)
  have "T2 xs = T1 xs" if "xs \<in> {2..1599}" for xs
    unfolding T1_def T2_def using grazing_sample [OF that] by simp
  then have tail: "sum T2 {2..1599} = sum T1 {2..1599}" by (intro sum.cong) simp_all
  have "T2 1 \<noteq> T1 1" unfolding T1_def T2_def c1 H_def B_def
    by (simp add: lengthSqr_def color_sub_def)
  then have diff: "sum T2 {1..1599} \<noteq> sum T1 {1..1599}"
    unfolding gold_split [of T1] gold_split [of T2] tail by simp
  have fit: "fitterSums grazingLibrary (metalPresets ! 1) = fitterSums exampleLibrary (metalPresets ! 1)"
  proof (rule ext)
    fix ior
    show "fitterSums grazingLibrary (metalPresets ! 1) ior = fitterSums exampleLibrary (metalPresets ! 1) ior"
      unfolding fitterSums_def p MetalPreset.sel refl base bind.bind_lunit B_def grazing_fit ..
  qed
  show ?thesis
    unfolding initial_width errs1 errs2 sums1 fit
    using root_mean_differs [OF sv] root_mean_differs [OF so] diff
    by (simp add: spec_rmse_def)
qed

section \<open>The records of the render cycle\<close>

text \<open>
  C9, as amended. The render cycle visits the presets in the order of the table and leaves
  the table as it was. When the CSV file could be opened it writes, after the header, exactly
  one record for each preset, 15 in all, in the order of the table; when the file could not be
  opened it writes no record.
\<close>

theorem renderCycle_records:
  "\<exists>s' rows.
      renderCycle V fp initialState = Some s'
    \<and> presetTable initialState = metalPresets \<and> presetTable s' = metalPresets
    \<and> csv s' = (if fp then Header # rows else [])
    \<and> list_all2 (rowFor V (bwidth initialState * 2)) metalPresets rows
    \<and> length rows = 15 \<and> length metalPresets = 15
    \<and> map row_name rows = map pname metalPresets \<and> Header \<notin> set rows
    \<and> posted s' = 15"
proof -
  obtain rows where rows: "list_all2 (rowFor V 1600) metalPresets rows"
    "renderCycle V fp initialState =
       Some (initialState\<lparr>csv := (if fp then Header # rows else []), posted := 15\<rparr>)"
    using renderCycle_rows by blast
  have len: "length rows = 15"
    using list_all2_lengthD [OF rows(1)] metalPresets_length by simp
  show ?thesis
    unfolding initial_width
    using rows rows_names [OF rows(1)] len metalPresets_length
    by (auto simp: initialState_def)
qed

theorem renderCycle_records_witness:
  "\<exists>s' rows. renderCycle exampleLibrary True initialState = Some s'
     \<and> csv s' = Header # rows \<and> length rows = 15 \<and> presetTable s' = metalPresets"
  using renderCycle_records [of exampleLibrary True] by auto

theorem renderCycle_without_file:
  "map_option csv (renderCycle exampleLibrary False initialState) = Some []
   \<and> length metalPresets = 15"
  using renderCycle_rows [of exampleLibrary False] metalPresets_length by auto

section \<open>Rounding to the nearest integer\<close>

lemma round_even_cases:
  "round_even t = \<lfloor>t\<rfloor> \<or> round_even t = \<lfloor>t\<rfloor> + 1"
  by (simp add: round_even_def Let_def)

lemma round_even_error: "\<bar>of_int (round_even t) - t\<bar> \<le> 1 / 2"
proof -
  define d where "d = t - of_int \<lfloor>t\<rfloor>"
  have d: "0 \<le> d" "d < 1" unfolding d_def by linarith+
  have t: "t = of_int \<lfloor>t\<rfloor> + d" by (simp add: d_def)
  have r: "round_even t = \<lfloor>t\<rfloor> \<and> d \<le> 1 / 2 \<or> round_even t = \<lfloor>t\<rfloor> + 1 \<and> 1 / 2 \<le> d"
    unfolding round_even_def Let_def d_def [symmetric] by auto
  then show ?thesis
  proof
    assume a: "round_even t = \<lfloor>t\<rfloor> \<and> d \<le> 1 / 2"
    then have "of_int (round_even t) - t = - d" using t by simp
    then show ?thesis using a d by simp
  next
    assume a: "round_even t = \<lfloor>t\<rfloor> + 1 \<and> 1 / 2 \<le> d"
    then have "of_int (round_even t) - t = 1 - d" using t by simp
    then show ?thesis using a d by simp
  qed
qed

lemma round_even_of_int [simp]: "round_even (of_int m) = m"
  by (simp add: round_even_def)

lemma round_even_le:
  assumes "t \<le> of_int K"
  shows "round_even t \<le> K"
proof (cases "t = of_int K")
  case True
  then show ?thesis by simp
next
  case False
  then have "t < of_int K" using assms by simp
  then have "\<lfloor>t\<rfloor> < K" by (simp add: floor_less_iff)
  then show ?thesis using round_even_cases [of t] by linarith
qed

lemma round_even_ge:
  assumes "of_int K \<le> t"
  shows "K \<le> round_even t"
proof -
  have "K \<le> \<lfloor>t\<rfloor>" using assms by (simp add: le_floor_iff)
  then show ?thesis using round_even_cases [of t] by linarith
qed

section \<open>Powers of two\<close>

lemma two_powi_pos [simp]: "0 < (2::real) powi e"
  by (simp add: power_int_def)

lemma two_powi_add: "(2::real) powi (a + b) = 2 powi a * 2 powi b"
  by (simp add: power_int_add)

lemma two_powi_mono: "a \<le> b \<Longrightarrow> (2::real) powi a \<le> 2 powi b"
  by (rule power_int_increasing) simp_all

lemma two_powi_strict_mono: "a < b \<Longrightarrow> (2::real) powi a < 2 powi b"
  by (rule power_int_strict_increasing) simp_all

lemma two_powi_nat: "0 \<le> e \<Longrightarrow> (2::real) powi e = of_int (2 ^ nat e)"
  by (simp add: power_int_def)

lemma two_powr_int: "(2::real) powr of_int e = 2 powi e"
  by (simp add: powr_real_of_int power_int_def inverse_eq_divide power_divide)

lemma floor_log2:
  assumes "x \<noteq> 0"
  shows "2 powi \<lfloor>log 2 \<bar>x\<bar>\<rfloor> \<le> \<bar>x\<bar>" and "\<bar>x\<bar> < 2 powi (\<lfloor>log 2 \<bar>x\<bar>\<rfloor> + 1)"
proof -
  have p: "0 < \<bar>x\<bar>" using assms by simp
  have "(2::real) powr of_int \<lfloor>log 2 \<bar>x\<bar>\<rfloor> \<le> \<bar>x\<bar> \<and> \<bar>x\<bar> < 2 powr of_int (\<lfloor>log 2 \<bar>x\<bar>\<rfloor> + 1)"
    using floor_log_eq_powr_iff [OF p, of 2 "\<lfloor>log 2 \<bar>x\<bar>\<rfloor>"] by simp
  then show "2 powi \<lfloor>log 2 \<bar>x\<bar>\<rfloor> \<le> \<bar>x\<bar>" "\<bar>x\<bar> < 2 powi (\<lfloor>log 2 \<bar>x\<bar>\<rfloor> + 1)"
    unfolding two_powr_int by blast+
qed

lemma floor_log2_eq:
  assumes "2 powi e \<le> \<bar>x\<bar>" "\<bar>x\<bar> < 2 powi (e + 1)"
  shows "\<lfloor>log 2 \<bar>x\<bar>\<rfloor> = e"
proof -
  have p: "0 < \<bar>x\<bar>" using assms(1) two_powi_pos [of e] by linarith
  show ?thesis
    using floor_log_eq_powr_iff [OF p, of 2 e] assms unfolding two_powr_int [symmetric] by simp
qed

section \<open>Rounding to a binary format\<close>

lemma quantum_pos [simp]: "0 < quantum p emin x"
  by (simp add: quantum_def)

lemma rnd_zero [simp]: "rnd p emin emax 0 = Num 0"
  by (simp add: rnd_def)

lemma rnd_unfold:
  assumes "x \<noteq> 0"
  shows "rnd p emin emax x =
    (if 2 powi (emax + 1) \<le> \<bar>quantum p emin x * of_int (round_even (x / quantum p emin x))\<bar>
     then (if 0 < x then PInf else NInf)
     else Num (quantum p emin x * of_int (round_even (x / quantum p emin x))))"
  using assms by (simp add: rnd_def Let_def)

lemma scaled_int_bounds:
  fixes q x :: real
  assumes "0 < q" "\<bar>x\<bar> \<le> q * of_int K"
  shows "\<bar>q * of_int (round_even (x / q))\<bar> \<le> q * of_int K"
proof -
  have "x / q \<le> of_int K" "of_int (- K) \<le> x / q"
    using assms by (simp_all add: field_simps abs_le_iff)
  then have "round_even (x / q) \<le> K" "- K \<le> round_even (x / q)"
    using round_even_le round_even_ge by blast+
  then have "\<bar>round_even (x / q)\<bar> \<le> K" by simp
  then have "\<bar>real_of_int (round_even (x / q))\<bar> \<le> of_int K"
    by (metis of_int_abs of_int_le_iff)
  then show ?thesis using assms(1) by (simp add: abs_mult)
qed

lemma scaled_int_lower:
  fixes q x :: real
  assumes "0 < q" "q * of_int K \<le> x"
  shows "q * of_int K \<le> q * of_int (round_even (x / q))"
proof -
  have "of_int K \<le> x / q" using assms by (simp add: field_simps)
  then have "K \<le> round_even (x / q)" by (rule round_even_ge)
  then show ?thesis using assms(1) by simp
qed

lemma scaled_div: "0 < q \<Longrightarrow> x = q * k \<Longrightarrow> x / q = (k::real)"
  by simp

lemma log_exponent_le:
  assumes "x \<noteq> 0" "\<bar>x\<bar> \<le> 2 powi j"
  shows "\<lfloor>log 2 \<bar>x\<bar>\<rfloor> \<le> j"
proof (rule ccontr)
  assume "\<not> \<lfloor>log 2 \<bar>x\<bar>\<rfloor> \<le> j"
  then have "j + 1 \<le> \<lfloor>log 2 \<bar>x\<bar>\<rfloor>" by simp
  then have "(2::real) powi (j + 1) \<le> 2 powi \<lfloor>log 2 \<bar>x\<bar>\<rfloor>" by (rule two_powi_mono)
  moreover have "(2::real) powi j < 2 powi (j + 1)" by (rule two_powi_strict_mono) simp
  ultimately show False using floor_log2(1) [OF assms(1)] assms(2) by linarith
qed

lemma pow_multiple:
  assumes "a \<le> j"
  shows "(2::real) powi j = 2 powi a * of_int (2 ^ nat (j - a))"
proof -
  have "(2::real) powi j = 2 powi (a + (j - a))" by simp
  also have "\<dots> = 2 powi a * 2 powi (j - a)" by (rule two_powi_add)
  also have "(2::real) powi (j - a) = of_int (2 ^ nat (j - a))"
    using assms by (intro two_powi_nat) simp
  finally show ?thesis .
qed

text \<open>A bound that is a power of two is kept by rounding.\<close>

lemma rnd_abs_le_pow:
  assumes "\<bar>x\<bar> \<le> 2 powi j" "emin - p + 1 \<le> j" "j \<le> emax" "1 \<le> p"
  shows "\<exists>y. rnd p emin emax x = Num y \<and> \<bar>y\<bar> \<le> 2 powi j"
proof (cases "x = 0")
  case True
  then show ?thesis by simp
next
  case False
  let ?E = "max \<lfloor>log 2 \<bar>x\<bar>\<rfloor> emin"
  let ?q = "quantum p emin x"
  have q: "?q = 2 powi (?E - p + 1)" by (simp add: quantum_def)
  have "\<lfloor>log 2 \<bar>x\<bar>\<rfloor> \<le> j" by (rule log_exponent_le [OF False assms(1)])
  then have "?E - p + 1 \<le> j" using assms(2,4) by simp
  from pow_multiple [OF this]
  have m: "(2::real) powi j = ?q * of_int (2 ^ nat (j - (?E - p + 1)))" unfolding q .
  have b: "\<bar>?q * of_int (round_even (x / ?q))\<bar> \<le> 2 powi j"
    using scaled_int_bounds [OF quantum_pos, of x p emin x "2 ^ nat (j - (?E - p + 1))"]
      assms(1) unfolding m [symmetric] by simp
  have "(2::real) powi j < 2 powi (emax + 1)"
    by (rule two_powi_strict_mono) (use assms(3) in simp)
  then have "\<not> 2 powi (emax + 1) \<le> \<bar>?q * of_int (round_even (x / ?q))\<bar>"
    using b by linarith
  then show ?thesis unfolding rnd_unfold [OF False] using b by simp
qed

text \<open>Rounding keeps the sign.\<close>

lemma rnd_nonneg:
  assumes "0 \<le> x"
  shows "rnd p emin emax x = PInf \<or> (\<exists>y. rnd p emin emax x = Num y \<and> 0 \<le> y)"
proof (cases "x = 0")
  case True
  then show ?thesis by simp
next
  case False
  have "0 \<le> quantum p emin x * of_int (round_even (x / quantum p emin x))"
    using scaled_int_lower [OF quantum_pos, of p emin x 0 x] assms by simp
  then show ?thesis unfolding rnd_unfold [OF False] using False assms by auto
qed

text \<open>Rounding leaves the numbers of the format as they are.\<close>

lemma rnd_float:
  assumes "x \<in> floats p emin emax" "1 \<le> p"
  shows "rnd p emin emax x = Num x"
proof (cases "x = 0")
  case True
  then show ?thesis by simp
next
  case False
  obtain m i where x: "x = of_int m * 2 powi i" and m: "\<bar>m\<bar> < 2 ^ nat p"
    and i: "emin - p + 1 \<le> i" "i \<le> emax - p + 1"
    using assms(1) unfolding floats_def by blast
  let ?e = "\<lfloor>log 2 \<bar>x\<bar>\<rfloor>"
  let ?E = "max ?e emin"
  let ?q = "quantum p emin x"
  have q: "?q = 2 powi (?E - p + 1)" by (simp add: quantum_def)
  have mp: "\<bar>real_of_int m\<bar> < 2 powi p"
  proof -
    have "\<bar>real_of_int m\<bar> < of_int (2 ^ nat p)" using m by (metis of_int_abs of_int_less_iff)
    then show ?thesis using assms(2) by (simp add: two_powi_nat)
  qed
  have ax: "\<bar>x\<bar> = \<bar>real_of_int m\<bar> * 2 powi i" by (simp add: x abs_mult)
  have lt: "\<bar>x\<bar> < 2 powi (p + i)"
    unfolding ax two_powi_add using mp by simp
  have "?e < p + i"
  proof (rule ccontr)
    assume "\<not> ?e < p + i"
    then have "(2::real) powi (p + i) \<le> 2 powi ?e" by (intro two_powi_mono) simp
    then show False using floor_log2(1) [OF False] lt by linarith
  qed
  then have le: "?E - p + 1 \<le> i" using i(1) by simp
  define K where "K = m * 2 ^ nat (i - (?E - p + 1))"
  have "(2::real) powi i = ?q * of_int (2 ^ nat (i - (?E - p + 1)))"
    unfolding q by (rule pow_multiple [OF le])
  then have "real_of_int m * 2 powi i = ?q * of_int K"
    unfolding K_def by simp
  then have xq: "x = ?q * of_int K" using x by simp
  have qp: "0 < ?q" by (rule quantum_pos)
  have t: "x / ?q = of_int K" by (rule scaled_div [OF qp xq])
  have y: "?q * of_int K = x" using xq by simp
  have "(2::real) powi (p + i) \<le> 2 powi (emax + 1)"
    by (rule two_powi_mono) (use i(2) in simp)
  then have "\<not> 2 powi (emax + 1) \<le> \<bar>x\<bar>" using lt by linarith
  then show ?thesis
    unfolding rnd_unfold [OF False] t round_even_of_int y by simp
qed

lemma scaled_err:
  fixes q r x :: real
  assumes "0 < q" "\<bar>r - x / q\<bar> \<le> 1 / 2"
  shows "\<bar>q * r - x\<bar> \<le> q / 2"
proof -
  have "q * r - x = q * (r - x / q)" using assms(1) by (simp add: field_simps)
  then have "\<bar>q * r - x\<bar> = q * \<bar>r - x / q\<bar>" using assms(1) by (simp add: abs_mult)
  also have "\<dots> \<le> q * (1 / 2)" by (rule mult_left_mono [OF assms(2)]) (use assms(1) in simp)
  finally show ?thesis by simp
qed

lemma rnd_error:
  assumes "rnd p emin emax x = Num y"
  shows "\<bar>y - x\<bar> \<le> quantum p emin x / 2"
proof (cases "x = 0")
  case True
  have "y = 0" using assms True by simp
  then show ?thesis
    unfolding True using quantum_pos [of p emin 0, THEN less_imp_le] by simp
next
  case False
  let ?q = "quantum p emin x"
  have y: "y = ?q * of_int (round_even (x / ?q))"
    using assms unfolding rnd_unfold [OF False] by (simp split: if_splits)
  have qp: "0 < ?q" by (rule quantum_pos)
  show ?thesis unfolding y by (rule scaled_err [OF qp round_even_error])
qed

lemma quantum_le:
  assumes "x \<noteq> 0" "\<bar>x\<bar> < 2 powi (j + 1)" "emin \<le> j"
  shows "quantum p emin x \<le> 2 powi (j - p + 1)"
proof -
  have "\<lfloor>log 2 \<bar>x\<bar>\<rfloor> \<le> j"
  proof (rule ccontr)
    assume "\<not> \<lfloor>log 2 \<bar>x\<bar>\<rfloor> \<le> j"
    then have "(2::real) powi (j + 1) \<le> 2 powi \<lfloor>log 2 \<bar>x\<bar>\<rfloor>" by (intro two_powi_mono) simp
    then show False using floor_log2(1) [OF assms(1)] assms(2) by linarith
  qed
  then have "max \<lfloor>log 2 \<bar>x\<bar>\<rfloor> emin - p + 1 \<le> j - p + 1" using assms(3) by simp
  then show ?thesis unfolding quantum_def by (rule two_powi_mono)
qed

text \<open>A number that rounds to zero is at most half the smallest positive number.\<close>

lemma rnd_eq_zero:
  assumes "rnd p emin emax x = Num 0" "1 \<le> p"
  shows "\<bar>x\<bar> \<le> 2 powi (emin - p)"
proof (cases "x = 0")
  case True
  then show ?thesis by simp
next
  case False
  let ?e = "\<lfloor>log 2 \<bar>x\<bar>\<rfloor>"
  let ?q = "quantum p emin x"
  have qp: "0 < ?q" by (rule quantum_pos)
  have "?q * of_int (round_even (x / ?q)) = 0"
    using assms(1) unfolding rnd_unfold [OF False] by (simp split: if_splits)
  then have r0: "round_even (x / ?q) = 0" using qp by simp
  have small: "\<bar>x\<bar> \<le> ?q / 2"
    using rnd_error [OF assms(1)] by simp
  have "?e < emin"
  proof (rule ccontr)
    assume "\<not> ?e < emin"
    then have E: "max ?e emin = ?e" by simp
    have "?q \<le> 2 powi ?e"
      unfolding quantum_def E by (rule two_powi_mono) (use assms(2) in simp)
    then have "\<bar>x\<bar> < 2 powi ?e" using small qp by linarith
    then show False using floor_log2(1) [OF False] by linarith
  qed
  then have "?q = 2 powi (emin - p + 1)" by (simp add: quantum_def max_def)
  also have "\<dots> = 2 powi (emin - p) * 2" using two_powi_add [of "emin - p" 1] by simp
  finally show ?thesis using small by simp
qed

text \<open>The positive numbers of the format start at the smallest subnormal number.\<close>

lemma floats_positive:
  assumes "x \<in> floats p emin emax" "0 < x"
  shows "2 powi (emin - p + 1) \<le> x"
proof -
  obtain m i where x: "x = of_int m * 2 powi i" and i: "emin - p + 1 \<le> i"
    using assms(1) unfolding floats_def by blast
  have "\<not> (2::real) powi i < 0" using two_powi_pos [of i] by linarith
  then have "0 < real_of_int m" using assms(2) unfolding x by (simp add: zero_less_mult_iff)
  then have "1 \<le> real_of_int m" by simp
  then have "1 * 2 powi i \<le> real_of_int m * 2 powi i"
    by (intro mult_right_mono) simp_all
  then have a: "2 powi i \<le> real_of_int m * 2 powi i" by simp
  have b: "(2::real) powi (emin - p + 1) \<le> 2 powi i" by (rule two_powi_mono [OF i])
  show ?thesis unfolding x using a b by (rule order_trans [rotated])
qed

lemma floats_zero: "emin \<le> emax \<Longrightarrow> 1 \<le> p \<Longrightarrow> 0 \<in> floats p emin emax"
  unfolding floats_def by (auto intro!: exI [of _ 0] exI [of _ "emin - p + 1"])

lemma floats_pow:
  assumes "emin - p + 1 \<le> j" "j \<le> emax" "1 \<le> p" "emin \<le> emax"
  shows "2 powi j \<in> floats p emin emax"
proof (cases "j \<le> emax - p + 1")
  case True
  have "(1::int) < 2 ^ nat p" using assms(3)
    by (metis nat_0_iff not_one_le_zero one_less_numeral_iff one_less_power semiring_norm(76) zero_less_nat_eq zless_nat_conj order_less_le_trans zero_less_one)
  then have "(2::real) powi j = of_int 1 * 2 powi j \<and> \<bar>1::int\<bar> < 2 ^ nat p \<and> emin - p + 1 \<le> j \<and> j \<le> emax - p + 1"
    using True assms(1) by simp
  then show ?thesis unfolding floats_def by blast
next
  case False
  let ?i = "emax - p + 1"
  have le: "?i \<le> j" using False by simp
  have lt: "j - ?i < p" using assms(2) by simp
  have "(2::int) ^ nat (j - ?i) < 2 ^ nat p"
    by (rule power_strict_increasing) (use lt le in simp_all)
  moreover have "(2::real) powi j = of_int (2 ^ nat (j - ?i)) * 2 powi ?i"
    using pow_multiple [OF le] by (simp add: mult.commute)
  moreover have "emin - p + 1 \<le> ?i" using assms(4) by simp
  ultimately have "(2::real) powi j = of_int (2 ^ nat (j - ?i)) * 2 powi ?i
      \<and> \<bar>2 ^ nat (j - ?i) :: int\<bar> < 2 ^ nat p \<and> emin - p + 1 \<le> ?i \<and> ?i \<le> emax - p + 1"
    by simp
  then show ?thesis unfolding floats_def by blast
qed

lemma floats_neg: "x \<in> floats p emin emax \<Longrightarrow> - x \<in> floats p emin emax"
proof -
  assume "x \<in> floats p emin emax"
  then obtain m e where "x = of_int m * 2 powi e" "\<bar>m\<bar> < 2 ^ nat p" "emin - p + 1 \<le> e"
    "e \<le> emax - p + 1"
    unfolding floats_def by blast
  then have "- x = of_int (- m) * 2 powi e \<and> \<bar>- m\<bar> < 2 ^ nat p \<and> emin - p + 1 \<le> e
      \<and> e \<le> emax - p + 1"
    by simp
  then show ?thesis unfolding floats_def by blast
qed

lemma scaled_int_upper_neg:
  fixes q x :: real
  assumes "0 < q" "x \<le> - (q * of_int K)"
  shows "q * of_int (round_even (x / q)) \<le> - (q * of_int K)"
proof -
  have "x / q \<le> of_int (- K)" using assms by (simp add: field_simps)
  then have "round_even (x / q) \<le> - K" by (rule round_even_le)
  then have "real_of_int (round_even (x / q)) \<le> - of_int K"
    by (metis of_int_le_iff of_int_minus)
  then have "q * real_of_int (round_even (x / q)) \<le> q * (- of_int K)"
    using assms(1) by (intro mult_left_mono) simp_all
  then show ?thesis by simp
qed

text \<open>In the binade of \<open>x\<close>, the rounded value is not below the start of the binade.\<close>

lemma rnd_binade:
  assumes "x \<noteq> 0" "emin \<le> \<lfloor>log 2 \<bar>x\<bar>\<rfloor>" "1 \<le> p"
  shows "2 powi \<lfloor>log 2 \<bar>x\<bar>\<rfloor>
           \<le> \<bar>quantum p emin x * of_int (round_even (x / quantum p emin x))\<bar>"
proof -
  let ?e = "\<lfloor>log 2 \<bar>x\<bar>\<rfloor>"
  let ?q = "quantum p emin x"
  have qp: "0 < ?q" by (rule quantum_pos)
  have q: "?q = 2 powi (?e - p + 1)" using assms(2) by (simp add: quantum_def max_def)
  have "?e - p + 1 \<le> ?e" using assms(3) by simp
  from pow_multiple [OF this]
  have m: "(2::real) powi ?e = ?q * of_int (2 ^ nat (?e - (?e - p + 1)))" unfolding q .
  note b = floor_log2(1) [OF assms(1)]
  show ?thesis
  proof (cases "0 < x")
    case True
    then have "2 powi ?e \<le> x" using b by simp
    then have "2 powi ?e \<le> ?q * of_int (round_even (x / ?q))"
      using scaled_int_lower [OF qp, of "2 ^ nat (?e - (?e - p + 1))" x]
      unfolding m [symmetric] by simp
    then show ?thesis by linarith
  next
    case False
    then have "x \<le> - (2 powi ?e)" using b by simp
    then have "?q * of_int (round_even (x / ?q)) \<le> - (2 powi ?e)"
      using scaled_int_upper_neg [OF qp, of x "2 ^ nat (?e - (?e - p + 1))"]
      unfolding m [symmetric] by simp
    then show ?thesis by linarith
  qed
qed

text \<open>The result of rounding is a number of the format.\<close>

lemma rnd_in_floats:
  assumes "rnd p emin emax x = Num y" "1 \<le> p" "emin \<le> emax"
  shows "y \<in> floats p emin emax"
proof (cases "x = 0")
  case True
  then have "y = 0" using assms(1) by simp
  then show ?thesis using floats_zero [OF assms(3,2)] by simp
next
  case False
  let ?e = "\<lfloor>log 2 \<bar>x\<bar>\<rfloor>"
  let ?E = "max ?e emin"
  let ?q = "quantum p emin x"
  let ?r = "round_even (x / ?q)"
  have qp: "0 < ?q" by (rule quantum_pos)
  have q: "?q = 2 powi (?E - p + 1)" by (simp add: quantum_def)
  have y: "y = ?q * of_int ?r" and fin: "\<bar>?q * of_int ?r\<bar> < 2 powi (emax + 1)"
    using assms(1) unfolding rnd_unfold [OF False] by (simp_all split: if_splits)
  have Emax: "?E \<le> emax"
  proof (cases "emin \<le> ?e")
    case True
    have "2 powi ?e \<le> \<bar>?q * of_int ?r\<bar>" by (rule rnd_binade [OF False True assms(2)])
    then have "(2::real) powi ?e < 2 powi (emax + 1)" using fin by linarith
    then have "?e < emax + 1"
      by (metis not_le two_powi_mono not_less)
    then show ?thesis using True by simp
  next
    case False
    then show ?thesis using assms(3) by simp
  qed
  have top: "(2::real) powi (?E + 1) = ?q * of_int (2 ^ nat p)"
  proof -
    have "?E - p + 1 \<le> ?E + 1" using assms(2) by simp
    from pow_multiple [OF this] show ?thesis unfolding q by simp
  qed
  have "\<bar>x\<bar> < 2 powi (?e + 1)" by (rule floor_log2(2) [OF False])
  moreover have "(2::real) powi (?e + 1) \<le> 2 powi (?E + 1)" by (rule two_powi_mono) simp
  ultimately have "\<bar>x\<bar> \<le> ?q * of_int (2 ^ nat p)" unfolding top by linarith
  from scaled_int_bounds [OF qp this]
  have "?q * \<bar>real_of_int ?r\<bar> \<le> ?q * of_int (2 ^ nat p)"
    using qp by (simp add: abs_mult)
  then have "\<bar>real_of_int ?r\<bar> \<le> of_int (2 ^ nat p)" using qp by simp
  then have rb: "\<bar>?r\<bar> \<le> 2 ^ nat p" by (metis of_int_abs of_int_le_iff)
  show ?thesis
  proof (cases "\<bar>?r\<bar> < 2 ^ nat p")
    case True
    have "y = of_int ?r * 2 powi (?E - p + 1) \<and> \<bar>?r\<bar> < 2 ^ nat p
        \<and> emin - p + 1 \<le> ?E - p + 1 \<and> ?E - p + 1 \<le> emax - p + 1"
      using True Emax unfolding y q by simp
    then show ?thesis unfolding floats_def by blast
  next
    case False
    then have r: "\<bar>?r\<bar> = 2 ^ nat p" using rb by simp
    then have "\<bar>real_of_int ?r\<bar> = of_int (2 ^ nat p)" by (metis of_int_abs)
    then have ay: "\<bar>y\<bar> = 2 powi (?E + 1)"
      unfolding y top using qp by (simp add: abs_mult abs_of_pos)
    then have "(2::real) powi (?E + 1) < 2 powi (emax + 1)" using fin y by simp
    then have "?E + 1 < emax + 1" by (metis not_le two_powi_mono not_less)
    then have "2 powi (?E + 1) \<in> floats p emin emax"
      by (intro floats_pow) (use assms(2,3) in simp_all)
    moreover have "y = 2 powi (?E + 1) \<or> y = - (2 powi (?E + 1))" using ay by (simp add: abs_if split: if_splits)
    ultimately show ?thesis using floats_neg by metis
  qed
qed

section \<open>Evaluating a rounding\<close>

lemma round_even_near:
  assumes "\<bar>t - of_int m\<bar> < 1 / 2"
  shows "round_even t = m"
proof -
  have "\<bar>real_of_int (round_even t) - t\<bar> \<le> 1 / 2" by (rule round_even_error)
  then have "\<bar>real_of_int (round_even t) - of_int m\<bar> < 1" using assms by linarith
  then have "\<bar>real_of_int (round_even t - m)\<bar> < 1" by simp
  then have "\<bar>round_even t - m\<bar> < 1" by linarith
  then show ?thesis by simp
qed

lemma rnd_eval:
  assumes "2 powi e \<le> \<bar>x\<bar>" "\<bar>x\<bar> < 2 powi (e + 1)" "emin \<le> e"
    and "round_even (x / 2 powi (e - p + 1)) = m"
    and "\<bar>2 powi (e - p + 1) * real_of_int m\<bar> < 2 powi (emax + 1)"
  shows "rnd p emin emax x = Num (2 powi (e - p + 1) * of_int m)"
proof -
  have nz: "x \<noteq> 0" using assms(1) two_powi_pos [of e] by linarith
  have e: "\<lfloor>log 2 \<bar>x\<bar>\<rfloor> = e" by (rule floor_log2_eq [OF assms(1,2)])
  have q: "quantum p emin x = 2 powi (e - p + 1)"
    using assms(3) by (simp add: quantum_def e max_def)
  show ?thesis
    unfolding rnd_unfold [OF nz] q assms(4) Let_def using assms(5) by simp
qed

lemma rnd_underflow:
  assumes "\<bar>x\<bar> < 2 powi (emin - p)" "0 \<le> p"
  shows "rnd p emin emax x = Num 0"
proof (cases "x = 0")
  case True
  then show ?thesis by simp
next
  case False
  let ?e = "\<lfloor>log 2 \<bar>x\<bar>\<rfloor>"
  have "2 powi ?e \<le> \<bar>x\<bar>" by (rule floor_log2(1) [OF False])
  then have "(2::real) powi ?e < 2 powi (emin - p)" using assms(1) by linarith
  then have "?e < emin - p" by (metis not_le two_powi_mono not_less)
  then have q: "quantum p emin x = 2 powi (emin - p + 1)"
    using assms(2) by (simp add: quantum_def max_def)
  have h: "(2::real) powi (emin - p + 1) = 2 * 2 powi (emin - p)"
    using two_powi_add [of "emin - p" 1] by (simp add: mult.commute)
  have "\<bar>x / 2 powi (emin - p + 1)\<bar> < 1 / 2"
    unfolding h using assms(1) by (simp add: field_simps)
  then have "\<bar>x / 2 powi (emin - p + 1) - of_int 0\<bar> < 1 / 2" by simp
  then have r: "round_even (x / 2 powi (emin - p + 1)) = 0" by (rule round_even_near)
  show ?thesis
    unfolding rnd_unfold [OF False] q r Let_def
    using two_powi_pos [of "emax + 1"] by (simp add: not_le)
qed

lemma rnd_overflow:
  assumes "2 powi e \<le> \<bar>x\<bar>" "\<bar>x\<bar> < 2 powi (e + 1)" "emax < e" "emin \<le> e" "1 \<le> p"
  shows "rnd p emin emax x = (if 0 < x then PInf else NInf)"
proof -
  have nz: "x \<noteq> 0" using assms(1) two_powi_pos [of e] by linarith
  have e: "\<lfloor>log 2 \<bar>x\<bar>\<rfloor> = e" by (rule floor_log2_eq [OF assms(1,2)])
  have "emin \<le> \<lfloor>log 2 \<bar>x\<bar>\<rfloor>" unfolding e by (rule assms(4))
  from rnd_binade [OF nz this assms(5)]
  have "2 powi e \<le> \<bar>quantum p emin x * of_int (round_even (x / quantum p emin x))\<bar>"
    unfolding e .
  moreover have "(2::real) powi (emax + 1) \<le> 2 powi e"
    by (rule two_powi_mono) (use assms(3) in simp)
  ultimately have "2 powi (emax + 1) \<le> \<bar>quantum p emin x * of_int (round_even (x / quantum p emin x))\<bar>"
    by linarith
  then show ?thesis unfolding rnd_unfold [OF nz] Let_def by simp
qed

section \<open>Monotonicity and symmetry of rounding\<close>

lemma round_even_mono:
  assumes "t \<le> s"
  shows "round_even t \<le> round_even s"
proof (cases "\<lfloor>t\<rfloor> = \<lfloor>s\<rfloor>")
  case True
  have "t - of_int \<lfloor>t\<rfloor> \<le> s - of_int \<lfloor>s\<rfloor>" using assms True by simp
  then show ?thesis unfolding round_even_def Let_def True by auto
next
  case False
  have "\<lfloor>t\<rfloor> \<le> \<lfloor>s\<rfloor>" by (rule floor_mono [OF assms])
  then have "\<lfloor>t\<rfloor> + 1 \<le> \<lfloor>s\<rfloor>" using False by simp
  then show ?thesis using round_even_cases [of t] round_even_cases [of s] by linarith
qed

lemma round_even_minus: "round_even (- t) = - round_even t"
proof (cases "t = of_int \<lfloor>t\<rfloor>")
  case True
  then obtain m where "t = of_int m" ..
  then have "round_even t = m" "round_even (- t) = - m"
    using round_even_of_int [of m] round_even_of_int [of "- m"] by simp_all
  then show ?thesis by simp
next
  case False
  define f where "f = \<lfloor>t\<rfloor>"
  define d where "d = t - of_int f"
  have d: "0 < d" "d < 1" using False unfolding d_def f_def by linarith+
  have fl: "\<lfloor>- t\<rfloor> = - f - 1" unfolding f_def using False by (simp add: floor_minus ceiling_altdef)
  have dm: "- t - of_int (- f - 1) = 1 - d" unfolding d_def by simp
  have p: "even (- f - 1) \<longleftrightarrow> odd f" by simp
  have a: "round_even t = (if d < 1 / 2 then f else if 1 / 2 < d then f + 1
      else if even f then f else f + 1)"
    unfolding round_even_def Let_def f_def [symmetric] d_def [symmetric] ..
  have b: "round_even (- t) = (if 1 - d < 1 / 2 then - f - 1 else if 1 / 2 < 1 - d then - f - 1 + 1
      else if even (- f - 1) then - f - 1 else - f - 1 + 1)"
    unfolding round_even_def Let_def fl dm ..
  show ?thesis unfolding a b p using d by auto
qed

lemma quantum_minus: "quantum p emin (- x) = quantum p emin x"
  by (simp add: quantum_def)

lemma rnd_minus: "rnd p emin emax (- x) = fl_neg (rnd p emin emax x)"
proof (cases "x = 0")
  case True
  then show ?thesis by simp
next
  case False
  then have m: "- x \<noteq> 0" by simp
  show ?thesis
    unfolding rnd_unfold [OF False] rnd_unfold [OF m] quantum_minus Let_def
    using False by (simp add: round_even_minus)
qed

lemma rnd_nonpos:
  assumes "x \<le> 0" "rnd p emin emax x = Num y"
  shows "y \<le> 0"
proof -
  have "rnd p emin emax (- x) = Num (- y)" unfolding rnd_minus assms(2) by simp
  moreover have "0 \<le> - x" using assms(1) by simp
  ultimately show ?thesis using rnd_nonneg [of "- x" p emin emax] by auto
qed

lemma rnd_mono_pos:
  assumes "0 < x" "x \<le> y" "rnd p emin emax x = Num a" "rnd p emin emax y = Num b" "1 \<le> p"
  shows "a \<le> b"
proof -
  have nx: "x \<noteq> 0" and ny: "y \<noteq> 0" and ax: "\<bar>x\<bar> = x" and ay: "\<bar>y\<bar> = y"
    using assms(1,2) by simp_all
  let ?ex = "\<lfloor>log 2 \<bar>x\<bar>\<rfloor>" and ?ey = "\<lfloor>log 2 \<bar>y\<bar>\<rfloor>"
  have le: "?ex \<le> ?ey"
    using assms(1,2) unfolding ax ay by (intro floor_mono) simp
  have a: "a = quantum p emin x * of_int (round_even (x / quantum p emin x))"
    using assms(3) unfolding rnd_unfold [OF nx] by (simp split: if_splits)
  have b: "b = quantum p emin y * of_int (round_even (y / quantum p emin y))"
    and fin: "\<bar>quantum p emin y * of_int (round_even (y / quantum p emin y))\<bar> < 2 powi (emax + 1)"
    using assms(4) unfolding rnd_unfold [OF ny] by (simp_all split: if_splits)
  show ?thesis
  proof (cases "max ?ex emin = max ?ey emin")
    case True
    then have q: "quantum p emin x = quantum p emin y" by (simp add: quantum_def)
    have qp: "0 < quantum p emin y" by (rule quantum_pos)
    have "x / quantum p emin y \<le> y / quantum p emin y"
      by (rule divide_right_mono [OF assms(2) less_imp_le [OF qp]])
    from round_even_mono [OF this]
    have "real_of_int (round_even (x / quantum p emin y)) \<le> of_int (round_even (y / quantum p emin y))"
      by simp
    then show ?thesis unfolding a b q using qp by simp
  next
    case False
    then have lt: "max ?ex emin < ?ey" and ge: "emin \<le> ?ey" using le by linarith+
    have lo: "2 powi ?ey \<le> \<bar>b\<bar>" unfolding b by (rule rnd_binade [OF ny ge assms(5)])
    have "0 \<le> b" using rnd_nonneg [of y p emin emax] assms(1,2,4) by auto
    then have lo': "2 powi ?ey \<le> b" using lo by simp
    have "(2::real) powi ?ey < 2 powi (emax + 1)" using lo fin unfolding b by linarith
    then have top: "?ey < emax + 1" by (metis not_le two_powi_mono not_less)
    have "\<bar>x\<bar> < 2 powi (?ex + 1)" by (rule floor_log2(2) [OF nx])
    moreover have "(2::real) powi (?ex + 1) \<le> 2 powi (max ?ex emin + 1)"
      by (rule two_powi_mono) simp
    ultimately have "\<bar>x\<bar> \<le> 2 powi (max ?ex emin + 1)" by linarith
    from rnd_abs_le_pow [OF this, of emin p emax]
    have "\<bar>a\<bar> \<le> 2 powi (max ?ex emin + 1)" using assms(3,5) lt top by auto
    moreover have "(2::real) powi (max ?ex emin + 1) \<le> 2 powi ?ey"
      by (rule two_powi_mono) (use lt in linarith)
    ultimately show ?thesis using lo' by linarith
  qed
qed

lemma rnd_mono:
  assumes "x \<le> y" "rnd p emin emax x = Num a" "rnd p emin emax y = Num b" "1 \<le> p"
  shows "a \<le> b"
proof -
  consider "0 < x" | "x \<le> 0" "0 \<le> y" | "y < 0" using assms(1) by linarith
  then show ?thesis
  proof cases
    case 1
    then show ?thesis by (rule rnd_mono_pos [OF _ assms])
  next
    case 2
    have "a \<le> 0" by (rule rnd_nonpos [OF 2(1) assms(2)])
    moreover have "0 \<le> b" using rnd_nonneg [OF 2(2), of p emin emax] assms(3) by auto
    ultimately show ?thesis by linarith
  next
    case 3
    have "rnd p emin emax (- y) = Num (- b)" "rnd p emin emax (- x) = Num (- a)"
      unfolding rnd_minus assms(2,3) by simp_all
    moreover have "0 < - y" "- y \<le> - x" using 3 assms(1) by simp_all
    ultimately have "- b \<le> - a" using rnd_mono_pos assms(4) by blast
    then show ?thesis by simp
  qed
qed

lemma rnd_abs_mono:
  assumes "\<bar>x\<bar> \<le> y" "rnd p emin emax x = Num a" "rnd p emin emax y = Num b" "1 \<le> p"
  shows "\<bar>a\<bar> \<le> b"
proof -
  have "x \<le> y" "- y \<le> x" using assms(1) by linarith+
  moreover have "rnd p emin emax (- y) = Num (- b)" unfolding rnd_minus assms(3) by simp
  ultimately have "a \<le> b" "- b \<le> a" using rnd_mono assms(2,3,4) by blast+
  then show ?thesis by linarith
qed

section \<open>Rounding to binary32\<close>

lemma rnd32_eval:
  assumes "2 powi e \<le> \<bar>x\<bar>" "\<bar>x\<bar> < 2 powi (e + 1)" "- 126 \<le> e"
    and "round_even (x / 2 powi (e - 23)) = m"
    and "\<bar>2 powi (e - 23) * real_of_int m\<bar> < 2 powi 128"
  shows "rnd32 x = Num (2 powi (e - 23) * of_int m)"
  unfolding rnd32_def using rnd_eval [of e x "- 126" 24 m 127] assms by simp

lemma rnd32_bounded:
  assumes "\<bar>x\<bar> \<le> 2 powi j" "- 126 \<le> j" "j \<le> 127"
  shows "\<exists>y. rnd32 x = Num y \<and> \<bar>y\<bar> \<le> 2 powi j \<and> \<bar>y - x\<bar> \<le> 2 powi (j - 24)"
proof -
  obtain y where y: "rnd32 x = Num y" "\<bar>y\<bar> \<le> 2 powi j"
    unfolding rnd32_def using rnd_abs_le_pow [OF assms(1), of "- 126" 24 127] assms(2,3) by auto
  have "\<bar>y - x\<bar> \<le> 2 powi (j - 24)"
  proof (cases "x = 0")
    case True
    then have "y = 0" using y(1) by (simp add: rnd32_def)
    then show ?thesis using True two_powi_pos [of "j - 24"] by simp
  next
    case False
    have "(2::real) powi j < 2 powi (j + 1)" by (rule two_powi_strict_mono) simp
    then have "\<bar>x\<bar> < 2 powi (j + 1)" using assms(1) by linarith
    from quantum_le [OF False this assms(2), of 24]
    have q: "quantum 24 (- 126) x \<le> 2 powi (j - 23)" by simp
    have h: "(2::real) powi (j - 23) = 2 * 2 powi (j - 24)"
      using two_powi_add [of "j - 24" 1] by (simp add: mult.commute)
    have "\<bar>y - x\<bar> \<le> quantum 24 (- 126) x / 2"
      using rnd_error [of 24 "- 126" 127 x y] y(1) by (simp add: rnd32_def)
    then show ?thesis using q h by linarith
  qed
  with y show ?thesis by blast
qed

lemma rnd32_unit:
  assumes "\<bar>x\<bar> \<le> 1"
  shows "\<exists>y. rnd32 x = Num y \<and> \<bar>y\<bar> \<le> 1 \<and> \<bar>y - x\<bar> \<le> 1 / 2 ^ 24"
  using rnd32_bounded [of x 0] assms by simp

lemma rnd32_two:
  assumes "\<bar>x\<bar> \<le> 2"
  shows "\<exists>y. rnd32 x = Num y \<and> \<bar>y\<bar> \<le> 2 \<and> \<bar>y - x\<bar> \<le> 1 / 2 ^ 23"
  using rnd32_bounded [of x 1] assms by simp

lemma rnd32_mem: "rnd32 x = Num y \<Longrightarrow> y \<in> float32"
  unfolding rnd32_def float32_def by (rule rnd_in_floats) simp_all

lemma rnd32_abs_mono:
  assumes "\<bar>x\<bar> \<le> y" "rnd32 x = Num a" "rnd32 y = Num b"
  shows "\<bar>a\<bar> \<le> b"
  using rnd_abs_mono [OF assms(1), of 24 "- 126" 127 a b] assms(2,3) by (simp add: rnd32_def)

lemma rnd32_mono:
  assumes "x \<le> y" "rnd32 x = Num a" "rnd32 y = Num b"
  shows "a \<le> b"
  using rnd_mono [OF assms(1), of 24 "- 126" 127 a b] assms(2,3) by (simp add: rnd32_def)

lemma rnd32_float: "x \<in> float32 \<Longrightarrow> rnd32 x = Num x"
  unfolding rnd32_def float32_def by (rule rnd_float) simp_all

lemma rnd32_zero [simp]: "rnd32 0 = Num 0"
  by (simp add: rnd32_def)

lemma one_float32: "1 \<in> float32"
  using floats_pow [of "- 126" 24 0 127] by (simp add: float32_def)

lemma rnd32_one [simp]: "rnd32 1 = Num 1"
  by (rule rnd32_float [OF one_float32])

text \<open>A number that is not negative and not above a power of two rounds to such a number.\<close>

lemma rnd32_range:
  assumes "0 \<le> x" "x \<le> 2 powi j" "- 126 \<le> j" "j \<le> 127"
  shows "\<exists>y. rnd32 x = Num y \<and> 0 \<le> y \<and> y \<le> 2 powi j \<and> y \<in> float32"
proof -
  have "\<bar>x\<bar> \<le> 2 powi j" using assms(1,2) by simp
  from rnd32_bounded [OF this assms(3,4)] obtain y where y: "rnd32 x = Num y" "\<bar>y\<bar> \<le> 2 powi j"
    by blast
  have "0 \<le> y" using rnd32_mono [of 0 x 0 y] assms(1) y(1) by simp
  with y rnd32_mem [OF y(1)] show ?thesis by auto
qed

lemma add_zero32:
  assumes "x \<in> float32" "y \<in> float32" "0 \<le> x" "0 \<le> y" "rnd32 (x + y) = Num 0"
  shows "x = 0 \<and> y = 0"
proof -
  have s: "\<bar>x + y\<bar> \<le> 2 powi (- 150)"
    using rnd_eq_zero [of 24 "- 126" 127 "x + y"] assms(5) by (simp add: rnd32_def)
  have p: "z = 0" if "z \<in> float32" "0 \<le> z" "z \<le> x + y" for z
  proof (rule ccontr)
    assume "z \<noteq> 0"
    then have "0 < z" using that(2) by simp
    from floats_positive [OF that(1) [unfolded float32_def] this]
    have "2 powi (- 149) \<le> z" by simp
    moreover have "(2::real) powi (- 150) < 2 powi (- 149)" by (rule two_powi_strict_mono) simp
    ultimately show False using s that(3) assms(3,4) by linarith
  qed
  show ?thesis using p [OF assms(1,3)] p [OF assms(2,4)] assms(3,4) by simp
qed

text \<open>The error of one rounding, relative to the number rounded.\<close>

lemma rnd32_relative:
  assumes "rnd32 x = Num y"
  shows "\<bar>y - x\<bar> \<le> \<bar>x\<bar> / 2 ^ 24 + 1 / 2 ^ 150"
proof (cases "x = 0")
  case True
  then show ?thesis using assms by simp
next
  case False
  let ?e = "\<lfloor>log 2 \<bar>x\<bar>\<rfloor>"
  have err: "\<bar>y - x\<bar> \<le> quantum 24 (- 126) x / 2"
    using rnd_error [of 24 "- 126" 127 x y] assms by (simp add: rnd32_def)
  show ?thesis
  proof (cases "- 126 \<le> ?e")
    case True
    have m: "max ?e (- 126) = ?e" by (rule max_absorb1 [OF True])
    have i: "?e - 24 + 1 = ?e + (- 23)" by linarith
    have "quantum 24 (- 126) x = 2 powi (?e + (- 23))" unfolding quantum_def m i ..
    also have "\<dots> = 2 powi ?e * 2 powi (- 23)" by (rule two_powi_add)
    also have "\<dots> \<le> \<bar>x\<bar> * 2 powi (- 23)"
      by (rule mult_right_mono [OF floor_log2(1) [OF False]]) simp
    finally have "quantum 24 (- 126) x / 2 \<le> \<bar>x\<bar> / 2 ^ 24" by simp
    then show ?thesis using err by simp
  next
    case False
    then have "?e \<le> - 126" by linarith
    then have m: "max ?e (- 126) = - 126" by (rule max_absorb2)
    have "quantum 24 (- 126) x = 2 powi (- 149)" unfolding quantum_def m by simp
    then have "quantum 24 (- 126) x / 2 = 1 / 2 ^ 150" by simp
    moreover have "0 \<le> \<bar>x\<bar> / 2 ^ 24" by simp
    ultimately show ?thesis using err by linarith
  qed
qed

text \<open>
  Rounding a number of magnitude at most \<open>2 * M\<close>, where \<open>M\<close> is at least 1: the error is at
  most three units \<open>M / 2\<^sup>2\<^sup>4\<close>.
\<close>

lemma rnd32_scaled:
  assumes "1 \<le> M" "M \<le> 2 powi 125" "\<bar>x\<bar> \<le> 2 * M"
  shows "\<exists>y. rnd32 x = Num y \<and> \<bar>y - x\<bar> \<le> 3 * (M / 2 ^ 24)"
proof -
  have "(2::real) * 2 powi 125 = 2 powi 126" by simp
  then have "\<bar>x\<bar> \<le> 2 powi 126" using assms(2,3) by linarith
  from rnd32_bounded [OF this] obtain y where y: "rnd32 x = Num y" by auto
  have "\<bar>y - x\<bar> \<le> \<bar>x\<bar> / 2 ^ 24 + 1 / 2 ^ 150" by (rule rnd32_relative [OF y])
  moreover have "\<bar>x\<bar> / 2 ^ 24 \<le> 2 * M / 2 ^ 24" using assms(3) by (simp add: divide_right_mono)
  moreover have "(1::real) / 2 ^ 150 \<le> 1 / 2 ^ 24" by simp
  then have "1 / 2 ^ 150 \<le> M / 2 ^ 24" using assms(1) by (simp add: field_simps)
  ultimately have "\<bar>y - x\<bar> \<le> 3 * (M / 2 ^ 24)" by linarith
  with y show ?thesis by blast
qed

lemma rnd32_four:
  assumes "\<bar>x\<bar> \<le> 4"
  shows "\<exists>y. rnd32 x = Num y \<and> \<bar>y\<bar> \<le> 4 \<and> \<bar>y - x\<bar> \<le> 1 / 2 ^ 22"
  using rnd32_bounded [of x 2] assms by simp


section \<open>The blend in binary32\<close>












section \<open>The two ratios in binary32\<close>

lemma complexFresnel32_locals:
  "complexFresnel32 V n k c =
     clamp32 V (fl_mul (Num (1 / 2))
       (fl_add (fl_div (rs_num32 n k c) (rs_den32 n k c))
               (fl_div (rp_num32 n k c) (rp_den32 n k c)))) (Num 0) (Num 1)"
  unfolding complexFresnel32_def Let_def rs_num32_def rs_den32_def rp_num32_def rp_den32_def ..

lemma clamp32_Num: "clamp32 V (Num x) (Num a) (Num b) = Num (clamp x a b)"
  by (simp add: clamp32_def clamp_def)

lemma clamp32_NaN: "clamp32 V NaN a b = clampNaN V a b"
  by (simp add: clamp32_def)

text \<open>
  The pattern of the two ratios: a numerator \<open>(P - t) + z\<close> and a denominator
  \<open>(P + t) + z\<close>, of numbers that are not negative.
\<close>

lemma ratio32:
  assumes "P \<in> float32" "0 \<le> P" "P \<le> 2 powi 121"
    and "t \<in> float32" "0 \<le> t" "t \<le> 2 powi 61"
    and "z \<in> float32" "0 \<le> z" "z \<le> 1"
  shows "\<exists>U D. fl_add (fl_sub (Num P) (Num t)) (Num z) = Num U
             \<and> fl_add (fl_add (Num P) (Num t)) (Num z) = Num D
             \<and> \<bar>U\<bar> \<le> D \<and> z \<le> D \<and> (D = 0 \<longleftrightarrow> P = 0 \<and> t = 0 \<and> z = 0)"
proof -
  have "(2::real) powi 121 \<le> 2 powi 122" "(2::real) powi 61 \<le> 2 powi 121"
    "(2::real) powi 121 + 2 powi 121 = 2 powi 122" "(2::real) powi 122 + 2 powi 122 = 2 powi 123"
    "(1::real) \<le> 2 powi 122"
    by simp_all
  then have b1: "P + t \<le> 2 powi 122" using assms(3,6) by linarith
  have "0 \<le> P + t" using assms(2,5) by simp
  from rnd32_range [OF this b1] obtain D1 where D1: "rnd32 (P + t) = Num D1" "0 \<le> D1"
    "D1 \<le> 2 powi 122" "D1 \<in> float32" by auto
  have "(1::real) \<le> 2 powi 122" "(2::real) powi 122 + 2 powi 122 = 2 powi 123" by simp_all
  then have b2: "D1 + z \<le> 2 powi 123" using D1(3) assms(9) by linarith
  have "0 \<le> D1 + z" using D1(2) assms(8) by simp
  from rnd32_range [OF this b2] obtain D where D: "rnd32 (D1 + z) = Num D" "0 \<le> D" by auto
  have a1: "\<bar>P - t\<bar> \<le> P + t" using assms(2,5) by linarith
  then have "\<bar>P - t\<bar> \<le> 2 powi 122" using b1 by linarith
  from rnd32_bounded [OF this] obtain U1 where U1: "rnd32 (P - t) = Num U1" by auto
  have u1: "\<bar>U1\<bar> \<le> D1" by (rule rnd32_abs_mono [OF a1 U1 D1(1)])
  then have a2: "\<bar>U1 + z\<bar> \<le> D1 + z" using assms(8) by linarith
  then have "\<bar>U1 + z\<bar> \<le> 2 powi 123" using b2 by linarith
  from rnd32_bounded [OF this] obtain U where U: "rnd32 (U1 + z) = Num U" by auto
  have u: "\<bar>U\<bar> \<le> D" by (rule rnd32_abs_mono [OF a2 U D(1)])
  have "z \<le> D1 + z" using D1(2) by simp
  from rnd32_mono [OF this rnd32_float [OF assms(7)] D(1)] have zD: "z \<le> D" .
  have zero: "D = 0 \<longleftrightarrow> P = 0 \<and> t = 0 \<and> z = 0"
  proof
    assume "D = 0"
    then have "rnd32 (D1 + z) = Num 0" using D(1) by simp
    from add_zero32 [OF D1(4) assms(7) D1(2) assms(8) this] have "D1 = 0" "z = 0" by simp_all
    then have "rnd32 (P + t) = Num 0" using D1(1) by simp
    from add_zero32 [OF assms(1,4,2,5) this] show "P = 0 \<and> t = 0 \<and> z = 0"
      using \<open>z = 0\<close> by simp
  next
    assume "P = 0 \<and> t = 0 \<and> z = 0"
    then show "D = 0" using D1(1) D(1) by simp
  qed
  have "fl_add (fl_sub (Num P) (Num t)) (Num z) = Num U"
    by (simp add: fl_sub_def U1 U)
  moreover have "fl_add (fl_add (Num P) (Num t)) (Num z) = Num D"
    by (simp add: D1(1) D(1))
  ultimately show ?thesis using u zD zero by blast
qed

lemma unit_ratio32:
  assumes "\<bar>U\<bar> \<le> D" "D \<noteq> 0"
  shows "\<exists>r. fl_div (Num U) (Num D) = Num r \<and> \<bar>r\<bar> \<le> 1"
proof -
  have "0 < D" using assms by linarith
  then have "\<bar>U / D\<bar> \<le> 1" using assms(1) by (simp add: field_simps)
  from rnd32_unit [OF this] show ?thesis using assms(2) by auto
qed

lemma half_sum32:
  assumes "\<bar>r\<bar> \<le> 1" "\<bar>s\<bar> \<le> 1"
  shows "\<exists>h. fl_mul (Num (1 / 2)) (fl_add (Num r) (Num s)) = Num h \<and> \<bar>h\<bar> \<le> 1"
proof -
  have "\<bar>r + s\<bar> \<le> 2" using assms by linarith
  from rnd32_two [OF this] obtain w where w: "rnd32 (r + s) = Num w" "\<bar>w\<bar> \<le> 2" by blast
  have "\<bar>1 / 2 * w\<bar> \<le> 1" using w(2) by simp
  from rnd32_unit [OF this] obtain h where "rnd32 (1 / 2 * w) = Num h" "\<bar>h\<bar> \<le> 1" by blast
  then show ?thesis using w(1) by simp
qed

lemma square_bound:
  fixes n :: real
  assumes "0 \<le> n" "n \<le> 2 ^ 60"
  shows "0 \<le> n * n" "n * n \<le> 2 powi 120"
proof -
  show "0 \<le> n * n" using assms(1) by simp
  have "n * n \<le> 2 ^ 60 * 2 ^ 60" using assms by (intro mult_mono) simp_all
  then show "n * n \<le> 2 powi 120" by simp
qed

lemma scaled_bound:
  fixes x c B :: real
  assumes "0 \<le> x" "x \<le> B" "0 \<le> c" "c \<le> 1"
  shows "0 \<le> x * c" "x * c \<le> B"
proof -
  show "0 \<le> x * c" using assms(1,3) by simp
  have "x * c \<le> B * 1" using assms by (intro mult_mono) simp_all
  then show "x * c \<le> B" by simp
qed

lemma sum_zero32:
  assumes "a \<in> float32" "b \<in> float32" "0 \<le> a" "0 \<le> b" "rnd32 (a + b) = Num N"
  shows "N = 0 \<longleftrightarrow> a = 0 \<and> b = 0"
proof
  assume "N = 0"
  then have "rnd32 (a + b) = Num 0" using assms(5) by simp
  from add_zero32 [OF assms(1,2,3,4) this] show "a = 0 \<and> b = 0" .
next
  assume "a = 0 \<and> b = 0"
  then show "N = 0" using assms(5) by simp
qed

lemma complexFresnel32_parts:
  assumes "0 \<le> n" "n \<le> 2 ^ 60" "0 \<le> k" "k \<le> 2 ^ 60" "0 \<le> c" "c \<le> 1"
  shows "\<exists>U D W E. rs_num32 (Num n) (Num k) (Num c) = Num U
           \<and> rs_den32 (Num n) (Num k) (Num c) = Num D
           \<and> rp_num32 (Num n) (Num k) (Num c) = Num W
           \<and> rp_den32 (Num n) (Num k) (Num c) = Num E
           \<and> \<bar>U\<bar> \<le> D \<and> \<bar>W\<bar> \<le> E \<and> 1 \<le> E
           \<and> (D = 0 \<longleftrightarrow> fl_mul (Num n) (Num n) = Num 0 \<and> fl_mul (Num k) (Num k) = Num 0
                 \<and> fl_mul (fl_mul (Num 2) (Num n)) (Num c) = Num 0
                 \<and> fl_mul (Num c) (Num c) = Num 0)"
proof -
  from rnd32_range [OF square_bound [OF assms(1,2)]]
  obtain a where a: "rnd32 (n * n) = Num a" "0 \<le> a" "a \<le> 2 powi 120" "a \<in> float32" by auto
  from rnd32_range [OF square_bound [OF assms(3,4)]]
  obtain b where b: "rnd32 (k * k) = Num b" "0 \<le> b" "b \<le> 2 powi 120" "b \<in> float32" by auto
  have "(2::real) powi 120 + 2 powi 120 = 2 powi 121" by simp
  then have "0 \<le> a + b" "a + b \<le> 2 powi 121" using a(2,3) b(2,3) by linarith+
  from rnd32_range [OF this]
  obtain N where N: "rnd32 (a + b) = Num N" "0 \<le> N" "N \<le> 2 powi 121" "N \<in> float32" by auto
  have "0 \<le> 2 * n" "2 * n \<le> 2 powi 61" using assms(1,2) by simp_all
  from rnd32_range [OF this]
  obtain t2 where t2: "rnd32 (2 * n) = Num t2" "0 \<le> t2" "t2 \<le> 2 powi 61" by auto
  from rnd32_range [OF scaled_bound [OF t2(2,3) assms(5,6)]]
  obtain t where t: "rnd32 (t2 * c) = Num t" "0 \<le> t" "t \<le> 2 powi 61" "t \<in> float32" by auto
  have "0 \<le> c * c" "c * c \<le> 2 powi 0" using scaled_bound [OF assms(5,6,5,6)] by simp_all
  from rnd32_range [OF this]
  obtain cc where cc: "rnd32 (c * c) = Num cc" "0 \<le> cc" "cc \<le> 1" "cc \<in> float32" by auto
  from rnd32_range [OF scaled_bound [OF N(2,3) assms(5,6)]]
  obtain X1 where X1: "rnd32 (N * c) = Num X1" "0 \<le> X1" "X1 \<le> 2 powi 121" by auto
  from rnd32_range [OF scaled_bound [OF X1(2,3) assms(5,6)]]
  obtain X where X: "rnd32 (X1 * c) = Num X" "0 \<le> X" "X \<le> 2 powi 121" "X \<in> float32" by auto
  from ratio32 [OF N(4,2,3) t(4,2,3) cc(4,2,3)]
  obtain U D where s: "fl_add (fl_sub (Num N) (Num t)) (Num cc) = Num U"
    "fl_add (fl_add (Num N) (Num t)) (Num cc) = Num D" "\<bar>U\<bar> \<le> D"
    "D = 0 \<longleftrightarrow> N = 0 \<and> t = 0 \<and> cc = 0" by blast
  have one: "(0::real) \<le> 1" "(1::real) \<le> 1" by simp_all
  from ratio32 [OF X(4,2,3) t(4,2,3) one_float32 one]
  obtain W E where p: "fl_add (fl_sub (Num X) (Num t)) (Num 1) = Num W"
    "fl_add (fl_add (Num X) (Num t)) (Num 1) = Num E" "\<bar>W\<bar> \<le> E" "1 \<le> E" by blast
  have m: "fl_mul (Num n) (Num n) = Num a" "fl_mul (Num k) (Num k) = Num b"
    "fl_mul (fl_mul (Num 2) (Num n)) (Num c) = Num t" "fl_mul (Num c) (Num c) = Num cc"
    "fl_add (Num a) (Num b) = Num N" "fl_mul (fl_mul (Num N) (Num c)) (Num c) = Num X"
    by (simp_all add: a(1) b(1) t2(1) t(1) cc(1) N(1) X1(1) X(1))
  have "rs_num32 (Num n) (Num k) (Num c) = Num U" unfolding rs_num32_def m s(1) ..
  moreover have "rs_den32 (Num n) (Num k) (Num c) = Num D" unfolding rs_den32_def m s(2) ..
  moreover have "rp_num32 (Num n) (Num k) (Num c) = Num W" unfolding rp_num32_def m p(1) ..
  moreover have "rp_den32 (Num n) (Num k) (Num c) = Num E" unfolding rp_den32_def m p(2) ..
  moreover have "D = 0 \<longleftrightarrow> fl_mul (Num n) (Num n) = Num 0 \<and> fl_mul (Num k) (Num k) = Num 0
      \<and> fl_mul (fl_mul (Num 2) (Num n)) (Num c) = Num 0 \<and> fl_mul (Num c) (Num c) = Num 0"
    unfolding m(1-4) s(4) sum_zero32 [OF a(4) b(4) a(2) b(2) N(1)] by auto
  ultimately show ?thesis using s(3) p(3,4) by blast
qed

lemma square_underflow:
  fixes n :: real
  assumes "0 \<le> n" "rnd32 (n * n) = Num 0"
  shows "n \<le> 1 / 2 ^ 75"
proof (rule ccontr)
  assume "\<not> n \<le> 1 / 2 ^ 75"
  then have l: "1 / 2 ^ 75 < n" by simp
  have "(0::real) < 1 / 2 ^ 75" by simp
  then have np: "0 < n" using l by linarith
  have "(1 / 2 ^ 75) * (1 / 2 ^ 75) < n * n"
    by (rule mult_strict_mono [OF l l np]) simp
  moreover have "\<bar>n * n\<bar> \<le> 2 powi (- 150)"
    using rnd_eq_zero [of 24 "- 126" 127 "n * n"] assms(2) by (simp add: rnd32_def)
  ultimately show False by simp
qed


lemma tiny_index32:
  "fl_mul (Num (1 / 2 ^ 80)) (Num (1 / 2 ^ 80)) = Num 0"
  "fl_mul (fl_mul (Num 2) (Num (1 / 2 ^ 80))) (Num 0) = Num 0"
proof -
  have "rnd32 (1 / 2 ^ 80 * (1 / 2 ^ 80)) = Num 0"
    unfolding rnd32_def by (rule rnd_underflow) simp_all
  then show "fl_mul (Num (1 / 2 ^ 80)) (Num (1 / 2 ^ 80)) = Num 0" by simp
  have "rnd32 (2 * (1 / 2 ^ 80)) = Num (1 / 2 ^ 79)"
    using rnd32_eval [of "- 79" "2 * (1 / 2 ^ 80)" "2 ^ 23"] by (simp add: round_even_def)
  then show "fl_mul (fl_mul (Num 2) (Num (1 / 2 ^ 80))) (Num 0) = Num 0" by simp
qed

lemma tiny_denominator32:
  "rs_den32 (Num (1 / 2 ^ 80)) (Num 0) (Num 0) = Num 0"
  "rs_num32 (Num (1 / 2 ^ 80)) (Num 0) (Num 0) = Num 0"
  unfolding rs_den32_def rs_num32_def fl_sub_def tiny_index32 by simp_all

lemma origin_denominator32:
  "rs_den32 (Num 0) (Num 0) (Num 0) = Num 0"
  "rs_num32 (Num 0) (Num 0) (Num 0) = Num 0"
  by (simp_all add: rs_den32_def rs_num32_def fl_sub_def)

lemma unit_denominator32: "rs_den32 (Num 1) (Num 0) (Num 1) = Num 4"
proof -
  have a: "rnd32 2 = Num 2" using rnd32_eval [of 1 2 "2 ^ 23"] by (simp add: round_even_def)
  have b: "rnd32 3 = Num 3" using rnd32_eval [of 1 3 "3 * 2 ^ 22"] by (simp add: round_even_def)
  have c: "rnd32 4 = Num 4" using rnd32_eval [of 2 4 "2 ^ 23"] by (simp add: round_even_def)
  show ?thesis by (simp add: rs_den32_def a b c)
qed


text \<open>
  C3, as amended. \<^verbatim>\<open>complexFresnel\<close> has no guard: both divisions are carried out for
  every input and the result is \<^verbatim>\<open>clamp\<close> of half their sum. For binary32 \<open>n\<close> and \<open>k\<close>
  from 0 to \<open>2\<^sup>6\<^sup>0\<close> and a cosine in \<open>[0, 1]\<close>: the denominator of \<open>rp\<close> is at least 1; the
  denominator of \<open>rs\<close> is zero exactly when \<open>n * n\<close>, \<open>k * k\<close>, \<open>2 * n * c\<close> and \<open>c * c\<close>
  all round to zero, which needs \<open>n\<close>, \<open>k\<close> and the cosine to be at most \<open>2\<^sup>-\<^sup>7\<^sup>5\<close>; there
  \<open>rs\<close> is zero divided by zero, NaN, and the function returns what \<^verbatim>\<open>clamp\<close> of the
  library returns for NaN; everywhere else it returns a number in \<open>[0, 1]\<close>.
\<close>

theorem complexFresnel32_unguarded:
  assumes "0 \<le> n" "n \<le> 2 ^ 60" "0 \<le> k" "k \<le> 2 ^ 60" "0 \<le> c" "c \<le> 1"
  shows "(\<exists>E. rp_den32 (Num n) (Num k) (Num c) = Num E \<and> 1 \<le> E)
       \<and> (rs_den32 (Num n) (Num k) (Num c) = Num 0 \<longleftrightarrow>
            fl_mul (Num n) (Num n) = Num 0 \<and> fl_mul (Num k) (Num k) = Num 0
          \<and> fl_mul (fl_mul (Num 2) (Num n)) (Num c) = Num 0 \<and> fl_mul (Num c) (Num c) = Num 0)
       \<and> (rs_den32 (Num n) (Num k) (Num c) = Num 0 \<longrightarrow>
            n \<le> 1 / 2 ^ 75 \<and> k \<le> 1 / 2 ^ 75 \<and> c \<le> 1 / 2 ^ 75
          \<and> fl_div (rs_num32 (Num n) (Num k) (Num c)) (rs_den32 (Num n) (Num k) (Num c)) = NaN
          \<and> complexFresnel32 V (Num n) (Num k) (Num c) = clampNaN V (Num 0) (Num 1))
       \<and> (rs_den32 (Num n) (Num k) (Num c) \<noteq> Num 0 \<longrightarrow>
            (\<exists>y. complexFresnel32 V (Num n) (Num k) (Num c) = Num y \<and> 0 \<le> y \<and> y \<le> 1))"
proof -
  from complexFresnel32_parts [OF assms] obtain U D W E where
    v: "rs_num32 (Num n) (Num k) (Num c) = Num U" "rs_den32 (Num n) (Num k) (Num c) = Num D"
       "rp_num32 (Num n) (Num k) (Num c) = Num W" "rp_den32 (Num n) (Num k) (Num c) = Num E"
    and b: "\<bar>U\<bar> \<le> D" "\<bar>W\<bar> \<le> E" "1 \<le> E"
    and z: "D = 0 \<longleftrightarrow> fl_mul (Num n) (Num n) = Num 0 \<and> fl_mul (Num k) (Num k) = Num 0
                 \<and> fl_mul (fl_mul (Num 2) (Num n)) (Num c) = Num 0
                 \<and> fl_mul (Num c) (Num c) = Num 0"
    by blast
  have 1: "\<exists>E. rp_den32 (Num n) (Num k) (Num c) = Num E \<and> 1 \<le> E" using v(4) b(3) by blast
  have 2: "rs_den32 (Num n) (Num k) (Num c) = Num 0 \<longleftrightarrow>
            fl_mul (Num n) (Num n) = Num 0 \<and> fl_mul (Num k) (Num k) = Num 0
          \<and> fl_mul (fl_mul (Num 2) (Num n)) (Num c) = Num 0 \<and> fl_mul (Num c) (Num c) = Num 0"
    unfolding v(2) using z by simp
  have 3: "n \<le> 1 / 2 ^ 75 \<and> k \<le> 1 / 2 ^ 75 \<and> c \<le> 1 / 2 ^ 75
          \<and> fl_div (rs_num32 (Num n) (Num k) (Num c)) (rs_den32 (Num n) (Num k) (Num c)) = NaN
          \<and> complexFresnel32 V (Num n) (Num k) (Num c) = clampNaN V (Num 0) (Num 1)"
    if "rs_den32 (Num n) (Num k) (Num c) = Num 0"
  proof -
    have D: "D = 0" using that v(2) by simp
    then have U: "U = 0" using b(1) by simp
    have p: "rnd32 (n * n) = Num 0" "rnd32 (k * k) = Num 0" "rnd32 (c * c) = Num 0"
      using z D by simp_all
    have rs: "fl_div (rs_num32 (Num n) (Num k) (Num c)) (rs_den32 (Num n) (Num k) (Num c)) = NaN"
      unfolding v U D by simp
    have "complexFresnel32 V (Num n) (Num k) (Num c) = clampNaN V (Num 0) (Num 1)"
      unfolding complexFresnel32_locals rs by (simp add: clamp32_NaN)
    with rs square_underflow [OF assms(1) p(1)] square_underflow [OF assms(3) p(2)]
      square_underflow [OF assms(5) p(3)]
    show ?thesis by blast
  qed
  have 4: "\<exists>y. complexFresnel32 V (Num n) (Num k) (Num c) = Num y \<and> 0 \<le> y \<and> y \<le> 1"
    if "rs_den32 (Num n) (Num k) (Num c) \<noteq> Num 0"
  proof -
    have D: "D \<noteq> 0" using that v(2) by simp
    have E: "E \<noteq> 0" using b(3) by simp
    from unit_ratio32 [OF b(1) D] obtain rs where rs: "fl_div (Num U) (Num D) = Num rs" "\<bar>rs\<bar> \<le> 1"
      by blast
    from unit_ratio32 [OF b(2) E] obtain rp where rp: "fl_div (Num W) (Num E) = Num rp" "\<bar>rp\<bar> \<le> 1"
      by blast
    from half_sum32 [OF rs(2) rp(2)] obtain h where
      h: "fl_mul (Num (1 / 2)) (fl_add (Num rs) (Num rp)) = Num h" by blast
    have "complexFresnel32 V (Num n) (Num k) (Num c) = Num (clamp h 0 1)"
      unfolding complexFresnel32_locals v rs(1) rp(1) h clamp32_Num ..
    moreover have "0 \<le> clamp h 0 1" "clamp h 0 1 \<le> 1" by (simp_all add: clamp_def)
    ultimately show ?thesis by blast
  qed
  show ?thesis using 1 2 3 4 by blast
qed

theorem complexFresnel32_unguarded_witness:
  "(0::real) \<le> 1 / 2 ^ 80 \<and> (1::real) / 2 ^ 80 \<le> 2 ^ 60
   \<and> rs_den32 (Num (1 / 2 ^ 80)) (Num 0) (Num 0) = Num 0
   \<and> complexFresnel32 (constantLibrary32 (Num (1 / 2))) (Num (1 / 2 ^ 80)) (Num 0) (Num 0)
       = clampNaN (constantLibrary32 (Num (1 / 2))) (Num 0) (Num 1)
   \<and> (\<exists>E. rp_den32 (Num (1 / 2 ^ 80)) (Num 0) (Num 0) = Num E \<and> 1 \<le> E)
   \<and> rs_den32 (Num 1) (Num 0) (Num 1) \<noteq> Num 0
   \<and> (\<exists>y. complexFresnel32 (constantLibrary32 (Num (1 / 2))) (Num 1) (Num 0) (Num 1) = Num y
          \<and> 0 \<le> y \<and> y \<le> 1)"
  using complexFresnel32_unguarded [of "1 / 2 ^ 80" 0 0 "constantLibrary32 (Num (1 / 2))"]
    complexFresnel32_unguarded [of 1 0 1 "constantLibrary32 (Num (1 / 2))"]
    tiny_denominator32(1) unit_denominator32 by simp

text \<open>
  The denominator of \<open>rs\<close> is zero at \<open>n = 2\<^sup>-\<^sup>8\<^sup>0\<close>, \<open>k = 0\<close>, \<open>cosTheta = 0\<close>, where \<open>n\<close> is
  not zero; there and at \<open>n = k = cosTheta = 0\<close> the division is carried out and \<open>rs\<close> is
  NaN.
\<close>

theorem complexFresnel32_zero_denominators:
  "rs_den32 (Num (1 / 2 ^ 80)) (Num 0) (Num 0) = Num 0
   \<and> fl_div (rs_num32 (Num (1 / 2 ^ 80)) (Num 0) (Num 0)) (rs_den32 (Num (1 / 2 ^ 80)) (Num 0) (Num 0)) = NaN
   \<and> rs_den32 (Num 0) (Num 0) (Num 0) = Num 0
   \<and> fl_div (rs_num32 (Num 0) (Num 0) (Num 0)) (rs_den32 (Num 0) (Num 0) (Num 0)) = NaN"
  unfolding tiny_denominator32 origin_denominator32 by simp


section \<open>Normal incidence in binary32\<close>

lemma quotient_error:
  fixes U D A M e :: real
  assumes "0 < M" "\<bar>U - A\<bar> \<le> e * M" "\<bar>D - M\<bar> \<le> e * M" "0 \<le> A" "A \<le> M" "0 \<le> e" "e \<le> 1 / 4"
  shows "\<bar>U / D - A / M\<bar> \<le> 4 * e" and "\<bar>U / D\<bar> \<le> 2" and "0 < D"
proof -
  have eM: "e * M \<le> 1 / 4 * M" using assms(1,7) by (intro mult_right_mono) simp_all
  then have D: "3 / 4 * M \<le> D" using assms(3) by linarith
  then show Dp: "0 < D" using assms(1) by linarith
  have DM: "0 < D * M" using Dp assms(1) by simp
  have "\<bar>U\<bar> \<le> 5 / 4 * M" using assms(2,4,5) eM by linarith
  also have "\<dots> \<le> 2 * D" using D assms(1) by linarith
  finally have "\<bar>U\<bar> / D \<le> 2" using Dp by (simp add: field_simps)
  then show "\<bar>U / D\<bar> \<le> 2" using Dp by simp
  have s: "U * M - A * D = (U - A) * M - A * (D - M)" by (simp add: algebra_simps)
  have b1: "\<bar>(U - A) * M\<bar> \<le> e * M * M"
    unfolding abs_mult using assms(1,2) by (intro mult_mono) simp_all
  have "\<bar>A * (D - M)\<bar> \<le> M * (e * M)"
    unfolding abs_mult using assms(3,4,5) by (intro mult_mono) simp_all
  also have "M * (e * M) = e * M * M" by simp
  finally have b2: "\<bar>A * (D - M)\<bar> \<le> e * M * M" .
  have n: "\<bar>U * M - A * D\<bar> \<le> 2 * (e * M * M)"
    unfolding s using abs_triangle_ineq4 [of "(U - A) * M" "A * (D - M)"] b1 b2 by linarith
  have "e * M * (3 / 4 * M) \<le> e * M * D"
    using D assms(1,6) by (intro mult_left_mono) simp_all
  moreover have "e * M * (3 / 4 * M) = 3 / 4 * (e * M * M)" by simp
  moreover have "0 \<le> e * M * M" using assms(1,6) by simp
  ultimately have "2 * (e * M * M) \<le> 4 * (e * M * D)" by linarith
  moreover have "4 * (e * M * D) = 4 * e * (D * M)" by simp
  ultimately have "2 * (e * M * M) \<le> 4 * e * (D * M)" by simp
  with n have "\<bar>U * M - A * D\<bar> \<le> 4 * e * (D * M)" by linarith
  then have q: "\<bar>U * M - A * D\<bar> / (D * M) \<le> 4 * e" using DM by (simp add: field_simps)
  have eq: "U / D - A / M = (U * M - A * D) / (D * M)"
    using Dp assms(1) by (simp add: field_simps)
  have ab: "\<bar>D * M\<bar> = D * M" using DM by simp
  have "\<bar>U / D - A / M\<bar> = \<bar>U * M - A * D\<bar> / (D * M)" unfolding eq abs_divide ab ..
  then show "\<bar>U / D - A / M\<bar> \<le> 4 * e" using q by simp
qed
lemma clamp_closer:
  assumes "0 \<le> v" "v \<le> 1"
  shows "\<bar>clamp h 0 1 - v\<bar> \<le> \<bar>h - v\<bar>"
  using assms by (simp add: clamp_def)

lemma four_steps:
  fixes h w r q v :: real
  assumes "\<bar>h - w / 2\<bar> \<le> 1 / 2 ^ 23" "\<bar>w - 2 * r\<bar> \<le> 1 / 2 ^ 22" "\<bar>r - q\<bar> \<le> 1 / 2 ^ 23"
    "\<bar>q - v\<bar> \<le> 4 * (18 / 2 ^ 24)"
  shows "\<bar>h - v\<bar> \<le> 1 / 2 ^ 17"
proof -
  have "\<bar>h - w / 2\<bar> \<le> 1 / 8388608" "\<bar>w - 2 * r\<bar> \<le> 1 / 4194304" "\<bar>r - q\<bar> \<le> 1 / 8388608"
    "\<bar>q - v\<bar> \<le> 9 / 2097152"
    using assms by simp_all
  then have "\<bar>h - v\<bar> \<le> 1 / 131072" by linarith
  then show ?thesis by simp
qed

text \<open>
  The numerator and the denominator at normal incidence, each within 18 units
  \<open>M / 2\<^sup>2\<^sup>4\<close> of its exact value, where \<open>M\<close> is the exact denominator.
\<close>

lemma normal_parts32:
  fixes n k :: real
  assumes "0 \<le> n" "n \<le> 2 ^ 60" "0 \<le> k" "k \<le> 2 ^ 60"
  shows "\<exists>U D. rs_num32 (Num n) (Num k) (Num 1) = Num U \<and> rs_den32 (Num n) (Num k) (Num 1) = Num D
           \<and> rp_num32 (Num n) (Num k) (Num 1) = Num U \<and> rp_den32 (Num n) (Num k) (Num 1) = Num D
           \<and> \<bar>U - ((n - 1) * (n - 1) + k * k)\<bar> \<le> 18 / 2 ^ 24 * ((n + 1) * (n + 1) + k * k)
           \<and> \<bar>D - ((n + 1) * (n + 1) + k * k)\<bar> \<le> 18 / 2 ^ 24 * ((n + 1) * (n + 1) + k * k)"
proof -
  define M where "M = n * n + k * k + 2 * n + 1"
  define u where "u = M / 2 ^ 24"
  note sn = square_bound [OF assms(1,2)] and sk = square_bound [OF assms(3,4)]
  have M1: "1 \<le> M" unfolding M_def using sn(1) sk(1) assms(1) by linarith
  have "(2::real) powi 120 + 2 powi 120 + 2 * 2 ^ 60 + 1 \<le> 2 powi 125" by simp
  then have Mtop: "M \<le> 2 powi 125" unfolding M_def using sn(2) sk(2) assms(2) by linarith
  have u: "0 \<le> u" "30 * u \<le> M" unfolding u_def using M1 by simp_all
  have p: "n * n \<le> M" "k * k \<le> M" "2 * n \<le> M" "n * n + k * k \<le> M"
    "n * n + k * k + 2 * n \<le> M"
    unfolding M_def using sn(1) sk(1) assms(1) by linarith+
  note R = rnd32_scaled [OF M1 Mtop, folded u_def]
  have "\<bar>n * n\<bar> \<le> 2 * M" using p(1) sn(1) M1 by linarith
  from R [OF this] obtain a where a: "rnd32 (n * n) = Num a" "\<bar>a - n * n\<bar> \<le> 3 * u" by blast
  have "\<bar>k * k\<bar> \<le> 2 * M" using p(2) sk(1) M1 by linarith
  from R [OF this] obtain b where b: "rnd32 (k * k) = Num b" "\<bar>b - k * k\<bar> \<le> 3 * u" by blast
  have "\<bar>a + b\<bar> \<le> 2 * M" using a(2) b(2) p(4) sn(1) sk(1) u by linarith
  from R [OF this] obtain N where N: "rnd32 (a + b) = Num N" "\<bar>N - (a + b)\<bar> \<le> 3 * u" by blast
  have "\<bar>2 * n\<bar> \<le> 2 * M" using p(3) assms(1) M1 by linarith
  from R [OF this] obtain t where t: "rnd32 (2 * n) = Num t" "\<bar>t - 2 * n\<bar> \<le> 3 * u" by blast
  have Nn: "\<bar>N - (n * n + k * k)\<bar> \<le> 9 * u" using N(2) a(2) b(2) by linarith
  have "\<bar>N - t\<bar> \<le> 2 * M" using Nn t(2) p sn(1) sk(1) assms(1) u by linarith
  from R [OF this] obtain U1 where U1: "rnd32 (N - t) = Num U1" "\<bar>U1 - (N - t)\<bar> \<le> 3 * u" by blast
  have "\<bar>N + t\<bar> \<le> 2 * M" using Nn t(2) p sn(1) sk(1) assms(1) u by linarith
  from R [OF this] obtain D1 where D1: "rnd32 (N + t) = Num D1" "\<bar>D1 - (N + t)\<bar> \<le> 3 * u" by blast
  have "\<bar>U1 + 1\<bar> \<le> 2 * M"
    using U1(2) Nn t(2) p sn(1) sk(1) assms(1) u M1 M_def by linarith
  from R [OF this] obtain U where U: "rnd32 (U1 + 1) = Num U" "\<bar>U - (U1 + 1)\<bar> \<le> 3 * u" by blast
  have "\<bar>D1 + 1\<bar> \<le> 2 * M"
    using D1(2) Nn t(2) p sn(1) sk(1) assms(1) u M1 M_def by linarith
  from R [OF this] obtain D where D: "rnd32 (D1 + 1) = Num D" "\<bar>D - (D1 + 1)\<bar> \<le> 3 * u" by blast
  have tf: "rnd32 t = Num t" by (rule rnd32_float [OF rnd32_mem [OF t(1)]])
  have Nf: "rnd32 N = Num N" by (rule rnd32_float [OF rnd32_mem [OF N(1)]])
  have eA: "(n - 1) * (n - 1) + k * k = n * n + k * k - 2 * n + 1" by (simp add: algebra_simps)
  have eM: "(n + 1) * (n + 1) + k * k = M" unfolding M_def by (simp add: algebra_simps)
  have eu: "18 / 2 ^ 24 * M = 18 * u" unfolding u_def by simp
  have "\<bar>U - (n * n + k * k - 2 * n + 1)\<bar> \<le> 18 * u" using U(2) U1(2) Nn t(2) by linarith
  moreover have "\<bar>D - M\<bar> \<le> 18 * u" unfolding M_def using D(2) D1(2) Nn t(2) by linarith
  moreover have "rs_num32 (Num n) (Num k) (Num 1) = Num U"
    by (simp add: rs_num32_def fl_sub_def a(1) b(1) N(1) t(1) tf U1(1) U(1))
  moreover have "rs_den32 (Num n) (Num k) (Num 1) = Num D"
    by (simp add: rs_den32_def a(1) b(1) N(1) t(1) tf D1(1) D(1))
  moreover have "rp_num32 (Num n) (Num k) (Num 1) = Num U"
    by (simp add: rp_num32_def fl_sub_def a(1) b(1) N(1) Nf t(1) tf U1(1) U(1))
  moreover have "rp_den32 (Num n) (Num k) (Num 1) = Num D"
    by (simp add: rp_den32_def a(1) b(1) N(1) Nf t(1) tf D1(1) D(1))
  ultimately show ?thesis unfolding eA eM eu by blast
qed

lemma complexFresnel32_example:
  "complexFresnel32 V (Num (13421773 / 16777216)) (Num 0) (Num 1) = Num (13256079 / 1073741824)"
proof -
  have s1: "rnd32 (180143990463529 / 281474976710656) = Num (10737419 / 16777216)"
    using rnd32_eval [of "- 1" "180143990463529 / 281474976710656" "10737419"] by (simp add: round_even_def)
  have s2: "rnd32 (10737419 / 16777216) = Num (10737419 / 16777216)"
    using rnd32_eval [of "- 1" "10737419 / 16777216" "10737419"] by (simp add: round_even_def)
  have s3: "rnd32 (13421773 / 8388608) = Num (13421773 / 8388608)"
    using rnd32_eval [of "0" "13421773 / 8388608" "13421773"] by (simp add: round_even_def)
  have s4: "rnd32 (1) = Num (1)"
    using rnd32_eval [of "0" "1" "8388608"] by (simp add: round_even_def)
  have s5: "rnd32 (- (16106127 / 16777216)) = Num (- (16106127 / 16777216))"
    using rnd32_eval [of "- 1" "- (16106127 / 16777216)" "- 16106127"] by (simp add: round_even_def)
  have s6: "rnd32 (671089 / 16777216) = Num (671089 / 16777216)"
    using rnd32_eval [of "- 5" "671089 / 16777216" "10737424"] by (simp add: round_even_def)
  have s7: "rnd32 (37580965 / 16777216) = Num (9395241 / 4194304)"
    using rnd32_eval [of "1" "37580965 / 16777216" "9395241"] by (simp add: round_even_def)
  have s8: "rnd32 (13589545 / 4194304) = Num (13589545 / 4194304)"
    using rnd32_eval [of "1" "13589545 / 4194304" "13589545"] by (simp add: round_even_def)
  have s9: "rnd32 (23141 / 1874420) = Num (13256079 / 1073741824)"
    using rnd32_eval [of "- 7" "23141 / 1874420" "13256079"] by (simp add: round_even_def)
  have s10: "rnd32 (13256079 / 536870912) = Num (13256079 / 536870912)"
    using rnd32_eval [of "- 6" "13256079 / 536870912" "13256079"] by (simp add: round_even_def)
  have s11: "rnd32 (13256079 / 1073741824) = Num (13256079 / 1073741824)"
    using rnd32_eval [of "- 7" "13256079 / 1073741824" "13256079"] by (simp add: round_even_def)
  show ?thesis
    by (simp add: complexFresnel32_def Let_def fl_sub_def clamp32_def s1 s2 s3 s4 s5 s6 s7 s8 s9 s10 s11)
qed

lemma get_r32_example:
  "get_r32 (Num (13421773 / 16777216)) (Num 0) = Num (13256071 / 1073741824)"
proof -
  have g1: "rnd32 (- (3355443 / 16777216)) = Num (- (3355443 / 16777216))"
    using rnd32_eval [of "- 3" "- (3355443 / 16777216)" "- 13421772"] by (simp add: round_even_def)
  have g2: "rnd32 (30198989 / 16777216) = Num (7549747 / 4194304)"
    using rnd32_eval [of "0" "30198989 / 16777216" "15099494"] by (simp add: round_even_def)
  have g3: "rnd32 (11258997726249 / 281474976710656) = Num (10737417 / 268435456)"
    using rnd32_eval [of "- 5" "11258997726249 / 281474976710656" "10737417"] by (simp add: round_even_def)
  have g4: "rnd32 (10737417 / 268435456) = Num (10737417 / 268435456)"
    using rnd32_eval [of "- 5" "10737417 / 268435456" "10737417"] by (simp add: round_even_def)
  have g5: "rnd32 (56998679764009 / 17592186044416) = Num (1698693 / 524288)"
    using rnd32_eval [of "1" "56998679764009 / 17592186044416" "13589544"] by (simp add: round_even_def)
  have g6: "rnd32 (1698693 / 524288) = Num (1698693 / 524288)"
    using rnd32_eval [of "1" "1698693 / 524288" "13589544"] by (simp add: round_even_def)
  have g7: "rnd32 (3579139 / 289910272) = Num (13256071 / 1073741824)"
    using rnd32_eval [of "- 7" "3579139 / 289910272" "13256071"] by (simp add: round_even_def)
  show ?thesis
    by (simp add: get_r32_def fl_sub_def g1 g2 g3 g4 g5 g6 g7)
qed


lemma huge_index32:
  "fl_mul (Num (2 ^ 70)) (Num (2 ^ 70)) = PInf"
  "fl_mul (fl_mul (Num 2) (Num (2 ^ 70))) (Num 1) = Num (2 ^ 71)"
proof -
  have "rnd32 (2 ^ 70 * 2 ^ 70) = PInf"
    unfolding rnd32_def using rnd_overflow [of 140 "2 ^ 70 * 2 ^ 70" 127 "- 126" 24] by simp
  then show "fl_mul (Num (2 ^ 70)) (Num (2 ^ 70)) = PInf" by simp
  have a: "rnd32 (2 * 2 ^ 70) = Num (2 ^ 71)"
    using rnd32_eval [of 71 "2 * 2 ^ 70" "2 ^ 23"] by (simp add: round_even_def)
  have b: "rnd32 (2 ^ 71) = Num (2 ^ 71)"
    using rnd32_eval [of 71 "2 ^ 71" "2 ^ 23"] by (simp add: round_even_def)
  show "fl_mul (fl_mul (Num 2) (Num (2 ^ 70))) (Num 1) = Num (2 ^ 71)"
    using a b by simp
qed

lemma huge_ratio32:
  "fl_div (rs_num32 (Num (2 ^ 70)) (Num 0) (Num 1)) (rs_den32 (Num (2 ^ 70)) (Num 0) (Num 1)) = NaN"
  unfolding rs_num32_def rs_den32_def fl_sub_def huge_index32 by simp


text \<open>
  C1, as amended. For binary32 \<open>n\<close> and \<open>k\<close> from 0 to \<open>2\<^sup>6\<^sup>0\<close>, the complex Fresnel formula
  at normal incidence (\<open>cosTheta = 1\<close>) returns a number within \<open>2\<^sup>-\<^sup>1\<^sup>7\<close> of
  \<open>((n - 1)\<^sup>2 + k\<^sup>2) / ((n + 1)\<^sup>2 + k\<^sup>2)\<close>.
\<close>

theorem complexFresnel32_normal_incidence:
  fixes n k :: real
  assumes "0 \<le> n" "n \<le> 2 ^ 60" "0 \<le> k" "k \<le> 2 ^ 60"
  shows "\<exists>y. complexFresnel32 V (Num n) (Num k) (Num 1) = Num y
           \<and> \<bar>y - ((n - 1) * (n - 1) + k * k) / ((n + 1) * (n + 1) + k * k)\<bar> \<le> 1 / 2 ^ 17"
proof -
  let ?A = "(n - 1) * (n - 1) + k * k" and ?M = "(n + 1) * (n + 1) + k * k"
  from normal_parts32 [OF assms] obtain U D where
    v: "rs_num32 (Num n) (Num k) (Num 1) = Num U" "rs_den32 (Num n) (Num k) (Num 1) = Num D"
       "rp_num32 (Num n) (Num k) (Num 1) = Num U" "rp_den32 (Num n) (Num k) (Num 1) = Num D"
    and e: "\<bar>U - ?A\<bar> \<le> 18 / 2 ^ 24 * ?M" "\<bar>D - ?M\<bar> \<le> 18 / 2 ^ 24 * ?M"
    by blast
  have A0: "0 \<le> ?A" by simp
  have "0 < (n + 1) * (n + 1)" using assms(1) by simp
  moreover have "0 \<le> k * k" by simp
  ultimately have Mp: "0 < ?M" by linarith
  have "?A \<le> ?M" using assms(1) by (simp add: algebra_simps)
  note q = quotient_error [OF Mp e A0 this]
  have c: "(0::real) \<le> 18 / 2 ^ 24" "(18::real) / 2 ^ 24 \<le> 1 / 4" by simp_all
  note q = q [OF c]
  have ratio: "0 \<le> ?A / ?M" "?A / ?M \<le> 1" using A0 Mp \<open>?A \<le> ?M\<close> by simp_all
  from rnd32_two [OF q(2)] obtain r where r: "rnd32 (U / D) = Num r" "\<bar>r\<bar> \<le> 2"
    "\<bar>r - U / D\<bar> \<le> 1 / 2 ^ 23" by blast
  have "\<bar>2 * r\<bar> \<le> 4" using r(2) by linarith
  from rnd32_four [OF this] obtain w where w: "rnd32 (2 * r) = Num w" "\<bar>w\<bar> \<le> 4"
    "\<bar>w - 2 * r\<bar> \<le> 1 / 2 ^ 22" by blast
  have "\<bar>w / 2\<bar> \<le> 2" using w(2) by simp
  from rnd32_two [OF this] obtain h where h: "rnd32 (w / 2) = Num h"
    "\<bar>h - w / 2\<bar> \<le> 1 / 2 ^ 23" by blast
  have rs: "fl_div (Num U) (Num D) = Num r" using q(3) r(1) by simp
  have "complexFresnel32 V (Num n) (Num k) (Num 1) = Num (clamp h 0 1)"
    unfolding complexFresnel32_locals v rs by (simp add: w(1) h(1) clamp32_Num)
  moreover have "\<bar>h - ?A / ?M\<bar> \<le> 1 / 2 ^ 17" by (rule four_steps [OF h(2) w(3) r(3) q(1)])
  then have "\<bar>clamp h 0 1 - ?A / ?M\<bar> \<le> 1 / 2 ^ 17"
    using clamp_closer [OF ratio, of h] by linarith
  ultimately show ?thesis by blast
qed

theorem complexFresnel32_normal_incidence_witness:
  "(0::real) \<le> 13421773 / 16777216 \<and> (13421773::real) / 16777216 \<le> 2 ^ 60
   \<and> (\<exists>y. complexFresnel32 (constantLibrary32 (Num (1 / 2))) (Num (13421773 / 16777216)) (Num 0) (Num 1)
            = Num y
          \<and> \<bar>y - ((13421773 / 16777216 - 1) * (13421773 / 16777216 - 1) + 0 * 0)
                  / ((13421773 / 16777216 + 1) * (13421773 / 16777216 + 1) + 0 * 0)\<bar> \<le> 1 / 2 ^ 17)"
  using complexFresnel32_normal_incidence
    [of "13421773 / 16777216" 0 "constantLibrary32 (Num (1 / 2))"]
  by simp

text \<open>
  At \<open>n = 0.8f\<close>, \<open>k = 0\<close> the value at normal incidence differs from the value of
  \<^verbatim>\<open>get_r\<close>, which evaluates the closed form in binary32, and from the closed form itself.
  At \<open>n = 2\<^sup>7\<^sup>0\<close>, where \<open>n * n\<close> overflows, \<open>rs\<close> is infinity divided by infinity, NaN.
\<close>

theorem complexFresnel32_not_closed_form:
  "complexFresnel32 (constantLibrary32 (Num (1 / 2))) (Num (13421773 / 16777216)) (Num 0) (Num 1)
     = Num (13256079 / 1073741824)
   \<and> get_r32 (Num (13421773 / 16777216)) (Num 0) = Num (13256071 / 1073741824)
   \<and> Num (13256079 / 1073741824) \<noteq> Num (13256071 / 1073741824)
   \<and> (13256079::real) / 1073741824
       \<noteq> ((13421773 / 16777216 - 1) * (13421773 / 16777216 - 1) + 0 * 0)
           / ((13421773 / 16777216 + 1) * (13421773 / 16777216 + 1) + 0 * 0)
   \<and> fl_div (rs_num32 (Num (2 ^ 70)) (Num 0) (Num 1)) (rs_den32 (Num (2 ^ 70)) (Num 0) (Num 1)) = NaN"
  unfolding huge_ratio32 by (simp add: complexFresnel32_example get_r32_example)

end
